theory Spec2Isabelle
  imports Complex_Main "HOL-Library.Sublist" "HOL-Library.Signed_Division"
begin

section \<open>Byte strings\<close>

text \<open>
  A Go \<^verbatim>\<open>string\<close> and a Go \<^verbatim>\<open>[]byte\<close> are sequences of bytes; \<^verbatim>\<open>len\<close> and slicing
  count bytes. Both are modelled by \<^typ>\<open>string\<close>, whose characters are bytes.
\<close>

type_synonym bytes = string

section \<open>The logging helpers of the server's main package\<close>

subsection \<open>limitedBuffer\<close>

text \<open>
  \<^verbatim>\<open>type limitedBuffer struct { buf bytes.Buffer; max int }\<close>.
  The field \<^verbatim>\<open>max\<close> is written \<open>max'\<close>. An \<^verbatim>\<open>error\<close> result is an option: \<open>None\<close> is \<^verbatim>\<open>nil\<close>.
\<close>

record limitedBuffer =
  buf :: bytes
  max' :: int

datatype go_error = GoError string

text \<open>\<^verbatim>\<open>bytes.Buffer.Write\<close> appends \<open>p\<close> and returns \<^verbatim>\<open>(len(p), nil)\<close>.\<close>

definition Buffer_Write :: "bytes \<Rightarrow> bytes \<Rightarrow> bytes \<times> int \<times> go_error option" where
  "Buffer_Write b p = (b @ p, int (length p), None)"

definition Write :: "limitedBuffer \<Rightarrow> bytes \<Rightarrow> limitedBuffer \<times> int \<times> go_error option" where
  "Write l p =
     (let remain = max' l - int (length (buf l)) in
      if remain \<le> 0 then (l, int (length p), None)
      else if int (length p) > remain then
        (case Buffer_Write (buf l) (take (nat remain) p) of
           (b, _, _) \<Rightarrow> (l\<lparr>buf := b\<rparr>, int (length p), None))
      else
        (case Buffer_Write (buf l) p of
           (b, n, e) \<Rightarrow> (l\<lparr>buf := b\<rparr>, n, e)))"

definition Bytes :: "limitedBuffer \<Rightarrow> bytes" where
  "Bytes l = buf l"

text \<open>A sequence of \<^verbatim>\<open>Write\<close> calls on one buffer, with the results of each call.\<close>

fun Writes :: "limitedBuffer \<Rightarrow> bytes list \<Rightarrow> limitedBuffer \<times> (int \<times> go_error option) list" where
  "Writes l [] = (l, [])"
| "Writes l (p # ps) =
     (case Write l p of
        (l1, n, e) \<Rightarrow> (case Writes l1 ps of (l2, rs) \<Rightarrow> (l2, (n, e) # rs)))"

subsection \<open>maskAuthorization\<close>

text \<open>
  \<^verbatim>\<open>strings.SplitN(h, " ", 2)\<close>: at most two parts, cut at the first separator; a string
  without the separator is returned whole.
\<close>

definition SplitN2 :: "string \<Rightarrow> char \<Rightarrow> string list" where
  "SplitN2 s sep =
     (if sep \<in> set s
      then [takeWhile (\<lambda>c. c \<noteq> sep) s, tl (dropWhile (\<lambda>c. c \<noteq> sep) s)]
      else [s])"

definition maskAuthorization :: "string \<Rightarrow> string" where
  "maskAuthorization h =
     (if h = [] then []
      else let parts = SplitN2 h (CHR '' '') in
        if length parts \<noteq> 2 then ''<masked>''
        else let tok = parts ! 1 in
          if length tok \<le> 8 then parts ! 0 @ '' ****''
          else parts ! 0 @ '' '' @ take 4 tok @ ''****'' @ drop (length tok - 4) tok)"

section \<open>The CORS middleware: strconvFormatInt and toSeconds\<close>

text \<open>
  An \<^verbatim>\<open>int64\<close> is an integer in \<open>[-2^63, 2^63)\<close>; \<open>wrap64\<close> is the wrap-around of
  two's-complement arithmetic, applied where the code negates.
\<close>

definition int64_min :: int where
  "int64_min = - (2 ^ 63)"

definition int64_max :: int where
  "int64_max = 2 ^ 63 - 1"

definition wrap64 :: "int \<Rightarrow> int" where
  "wrap64 x = (x + 2 ^ 63) mod 2 ^ 64 - 2 ^ 63"

text \<open>
  The loop \<^verbatim>\<open>for i > 0 { bp--; b[bp] = byte('0' + i%10); i /= 10 }\<close> over the array
  \<^verbatim>\<open>var b [20]byte\<close>. An index outside the array panics: the result \<open>None\<close>.
\<close>

function fmt_loop :: "int \<Rightarrow> bytes \<Rightarrow> nat \<Rightarrow> (bytes \<times> nat) option" where
  "fmt_loop i b bp =
     (if i > 0 then
        (if bp = 0 \<or> bp - 1 \<ge> length b then None
         else fmt_loop (i div 10) (b[bp - 1 := char_of (48 + i mod 10)]) (bp - 1))
      else Some (b, bp))"
  by pat_completeness auto
termination
  by (relation "measure (\<lambda>(i, b, bp). nat i)") auto

definition strconvFormatInt :: "int \<Rightarrow> string option" where
  "strconvFormatInt i0 =
     (if i0 = 0 then Some ''0''
      else
        let neg = (i0 < 0);
            i = (if neg then wrap64 (- i0) else i0)
        in case fmt_loop i (replicate 20 (CHR 0x00)) 20 of
             None \<Rightarrow> None
           | Some (b, bp) \<Rightarrow>
               if neg then
                 (if bp = 0 \<or> bp - 1 \<ge> length b then None
                  else Some (drop (bp - 1) (b[bp - 1 := CHR ''-''])))
               else Some (drop bp b))"

text \<open>
  A \<^verbatim>\<open>time.Duration\<close> is an \<^verbatim>\<open>int64\<close> count of nanoseconds; Go's \<^verbatim>\<open>/\<close> on integers
  truncates toward zero.
\<close>

definition Second :: int where
  "Second = 1000000000"

definition Hour :: int where
  "Hour = 3600 * Second"

definition toSeconds :: "int \<Rightarrow> string option" where
  "toSeconds d = strconvFormatInt (d sdiv Second)"

definition maxAge :: int where
  "maxAge = 24 * Hour"

text \<open>
  The standard decimal representation of an integer, the reference that
  \<open>strconvFormatInt\<close> is compared with: the digits of the magnitude, most significant
  first, after a \<^verbatim>\<open>-\<close> for a negative number.
\<close>

definition digit_char :: "nat \<Rightarrow> char" where
  "digit_char d = char_of (48 + d)"

function decimal_nat :: "nat \<Rightarrow> string" where
  "decimal_nat n = (if n < 10 then [digit_char n] else decimal_nat (n div 10) @ [digit_char (n mod 10)])"
  by pat_completeness auto
termination
  by (relation "measure id") auto

definition decimal_repr :: "int \<Rightarrow> string" where
  "decimal_repr i = (if i < 0 then CHR ''-'' # decimal_nat (nat (- i)) else decimal_nat (nat i))"

text \<open>The digits of a positive number, most significant first; no digit for zero.\<close>

function digs :: "nat \<Rightarrow> string" where
  "digs n = (if n = 0 then [] else digs (n div 10) @ [digit_char (n mod 10)])"
  by pat_completeness auto
termination
  by (relation "measure id") auto

section \<open>The file identifier generator\<close>

text \<open>
  \<^verbatim>\<open>hex.EncodeToString\<close>: two characters of the table \<^verbatim>\<open>0123456789abcdef\<close> for each
  byte, the high four bits first.
\<close>

definition hextable :: string where
  "hextable = ''0123456789abcdef''"

definition EncodeToString :: "bytes \<Rightarrow> string" where
  "EncodeToString src =
     concat (map (\<lambda>v. [hextable ! (of_char v div 16), hextable ! (of_char v mod 16)]) src)"

text \<open>
  A \<^verbatim>\<open>primitive.ObjectID\<close> is a \<^verbatim>\<open>[12]byte\<close>; \<^verbatim>\<open>Hex\<close> is the hex encoding of its
  twelve bytes.
\<close>

type_synonym ObjectID = bytes

definition Hex :: "ObjectID \<Rightarrow> string" where
  "Hex oid = EncodeToString oid"

text \<open>
  \<^verbatim>\<open>GenerateFileID\<close> is \<^verbatim>\<open>primitive.NewObjectID().Hex()[:12]\<close>. The object id that
  \<^verbatim>\<open>NewObjectID\<close> returns (a timestamp, a process-unique value and a counter, read from
  the environment) is the argument. Slicing a string beyond its length panics: \<open>None\<close>.
\<close>

definition GenerateFileID :: "ObjectID \<Rightarrow> string option" where
  "GenerateFileID oid = (let h = Hex oid in if 12 \<le> length h then Some (take 12 h) else None)"

definition is_lower_hex :: "char \<Rightarrow> bool" where
  "is_lower_hex c = (c \<in> set ''0123456789abcdef'')"

section \<open>The stored metadata model\<close>

text \<open>
  A \<^verbatim>\<open>time.Time\<close> is an instant, here its count of nanoseconds; a slice that may be
  \<^verbatim>\<open>nil\<close> is an option.
\<close>

type_synonym Time = int

record StoredChunk =
  ChunkID :: int
  DriveAccountID :: ObjectID
  DriveID :: string
  DriveFileID :: string
  Filename :: string
  Size :: int
  Checksum :: string
  StartOffset :: int
  EndOffset :: int

record StoredFile =
  ID :: ObjectID
  FileID :: string
  UserID :: ObjectID
  OriginalFilename :: string
  OriginalSize :: int
  ProcessedSize :: int
  Chunks :: "StoredChunk list option"
  ObfuscationSeed :: string
  CreatedAt :: Time
  Status :: string

text \<open>
  The value that \<^verbatim>\<open>encoding/json\<close> writes for a struct: an object with one member per
  field, in the order of declaration, under the name of the field's \<^verbatim>\<open>json\<close> tag; a
  field tagged \<^verbatim>\<open>json:"-"\<close> is left out. An ObjectID is written as its hex string, a
  \<^verbatim>\<open>time.Time\<close> by its own marshaller, a nil slice as \<^verbatim>\<open>null\<close>.
\<close>

datatype json =
    JNull
  | JString string
  | JNumber int
  | JTime Time
  | JArray "json list"
  | JObject "(string \<times> json) list"

definition StoredChunk_json :: "StoredChunk \<Rightarrow> json" where
  "StoredChunk_json c = JObject
     [(''chunk_id'', JNumber (ChunkID c)),
      (''drive_account_id'', JString (Hex (DriveAccountID c))),
      (''drive_id'', JString (DriveID c)),
      (''drive_file_id'', JString (DriveFileID c)),
      (''filename'', JString (Filename c)),
      (''size'', JNumber (Size c)),
      (''checksum'', JString (Checksum c)),
      (''start_offset'', JNumber (StartOffset c)),
      (''end_offset'', JNumber (EndOffset c))]"

definition StoredFile_json :: "StoredFile \<Rightarrow> json" where
  "StoredFile_json f = JObject
     [(''id'', JString (Hex (ID f))),
      (''file_id'', JString (FileID f)),
      (''user_id'', JString (Hex (UserID f))),
      (''original_filename'', JString (OriginalFilename f)),
      (''original_size'', JNumber (OriginalSize f)),
      (''processed_size'', JNumber (ProcessedSize f)),
      (''chunks'', (case Chunks f of None \<Rightarrow> JNull | Some cs \<Rightarrow> JArray (map StoredChunk_json cs))),
      (''created_at'', JTime (CreatedAt f)),
      (''status'', JString (Status f))]"

text \<open>
  \<^verbatim>\<open>type DownloadSession struct\<close>. \<^verbatim>\<open>Progress\<close> is a \<^verbatim>\<open>float64\<close> percentage, kept as a
  real number; \<^verbatim>\<open>CompletedAt\<close> is a pointer that may be nil.
\<close>

record DownloadSession =
  ID :: ObjectID
  UserID :: ObjectID
  FileID :: string
  OriginalFilename :: string
  Status :: string
  Progress :: real
  ErrorMessage :: string
  TempFilePath :: string
  ReconstructedPath :: string
  CreatedAt :: Time
  CompletedAt :: "Time option"
  ExpiresAt :: Time

section \<open>Masking in the request log\<close>

subsection \<open>Characters and the strings package\<close>

definition dquote :: char where
  "dquote = CHR 0x22"

definition newline :: char where
  "newline = CHR 0x0A"

text \<open>The three bytes of \<^verbatim>\<open>U+2026\<close>, the ellipsis that the code appends to a cut value.\<close>

definition ellipsis :: string where
  "ellipsis = [CHR 0xE2, CHR 0x80, CHR 0xA6]"

definition upper_ascii :: "char \<Rightarrow> char" where
  "upper_ascii c = (let n = of_char c :: nat in if 97 \<le> n \<and> n \<le> 122 then char_of (n - 32) else c)"

definition lower_ascii :: "char \<Rightarrow> char" where
  "lower_ascii c = (let n = of_char c :: nat in if 65 \<le> n \<and> n \<le> 90 then char_of (n + 32) else c)"

definition is_ascii :: "string \<Rightarrow> bool" where
  "is_ascii s = list_all (\<lambda>c. (of_char c :: nat) < 128) s"

text \<open>
  \<^verbatim>\<open>strings.ToLower\<close> maps \<^verbatim>\<open>A-Z\<close> to \<^verbatim>\<open>a-z\<close> in a string of ASCII bytes; any other
  string is mapped rune by rune with \<^verbatim>\<open>unicode.ToLower\<close>, whose tables are not
  part of the sources: \<open>ul\<close> stands for that mapping of a whole string.
\<close>

definition ToLower :: "(string \<Rightarrow> string) \<Rightarrow> string \<Rightarrow> string" where
  "ToLower ul s = (if is_ascii s then map lower_ascii s else ul s)"

text \<open>A string with its ASCII letters in lower case, for comparisons up to case.\<close>

definition fold_ascii :: "string \<Rightarrow> string" where
  "fold_ascii s = map lower_ascii s"

text \<open>\<^verbatim>\<open>strings.Contains\<close>.\<close>

fun Contains :: "string \<Rightarrow> string \<Rightarrow> bool" where
  "Contains [] sub = (sub = [])"
| "Contains (c # cs) sub = (prefix sub (c # cs) \<or> Contains cs sub)"

text \<open>\<^verbatim>\<open>strings.ReplaceAll(s, "\n", " ")\<close>: each newline byte becomes a space.\<close>

definition ReplaceAll_newline :: "string \<Rightarrow> string" where
  "ReplaceAll_newline s = map (\<lambda>c. if c = newline then CHR '' '' else c) s"

subsection \<open>The two regular expressions\<close>

text \<open>
  Both expressions are compiled with the flag \<^verbatim>\<open>(?i)\<close>. Go's regexp package folds case
  by Unicode simple folding: a letter of the pattern matches its lower-case and its
  upper-case byte, and moreover \<^verbatim>\<open>k\<close> matches \<^verbatim>\<open>U+212A\<close> (bytes \<^verbatim>\<open>E2 84 AA\<close>) and
  \<^verbatim>\<open>s\<close> matches \<^verbatim>\<open>U+017F\<close> (bytes \<^verbatim>\<open>C5 BF\<close>). \<open>fold_match p s\<close> matches the pattern
  character \<open>p\<close> (a lower-case letter or an underscore) at the head of \<open>s\<close> and returns
  the rest.
\<close>

fun fold_match :: "char \<Rightarrow> string \<Rightarrow> string option" where
  "fold_match p [] = None"
| "fold_match p (c # cs) =
     (if c = p \<or> c = upper_ascii p then Some cs
      else if p = CHR ''k'' \<and> c = CHR 0xE2 \<and> take 2 cs = [CHR 0x84, CHR 0xAA] then Some (drop 2 cs)
      else if p = CHR ''s'' \<and> c = CHR 0xC5 \<and> take 1 cs = [CHR 0xBF] then Some (drop 1 cs)
      else None)"

text \<open>A literal word of the pattern, matched at the head of the input.\<close>

fun match_lit :: "string \<Rightarrow> string \<Rightarrow> string option" where
  "match_lit [] s = Some s"
| "match_lit (p # ps) s = (case fold_match p s of None \<Rightarrow> None | Some r \<Rightarrow> match_lit ps r)"

text \<open>
  \<^verbatim>\<open>sensitiveQueryKeys\<close> is
  \<^verbatim>\<open>(?i)^(password|pass|token|access_token|refresh_token|authorization|auth|secret)$\<close>:
  the whole key is one of the words.
\<close>

definition sensitiveQueryKeys_words :: "string list" where
  "sensitiveQueryKeys_words =
     [''password'', ''pass'', ''token'', ''access_token'', ''refresh_token'',
      ''authorization'', ''auth'', ''secret'']"

definition sensitiveQueryKeys_MatchString :: "string \<Rightarrow> bool" where
  "sensitiveQueryKeys_MatchString k =
     list_ex (\<lambda>w. match_lit w k = Some []) sensitiveQueryKeys_words"

text \<open>
  \<^verbatim>\<open>sensitiveFields\<close> is
  \<^verbatim>\<open>(?i)"(password|token|access_token|refresh_token|authorization)"\s*:\s*"[^"]*"\<close>.
  \<^verbatim>\<open>\s\<close> is one of tab, newline, form feed, carriage return and space. After a word the
  expression has no choice left: \<^verbatim>\<open>\s*\<close> is followed by a character that is no space and
  \<^verbatim>\<open>[^"]*\<close> by a quote, so each star takes the longest run.
\<close>

definition sensitiveFields_words :: "string list" where
  "sensitiveFields_words =
     [''password'', ''token'', ''access_token'', ''refresh_token'', ''authorization'']"

definition is_space :: "char \<Rightarrow> bool" where
  "is_space c = (c \<in> set [CHR 0x09, CHR 0x0A, CHR 0x0C, CHR 0x0D, CHR 0x20])"

definition expect :: "char \<Rightarrow> string \<Rightarrow> string option" where
  "expect c s = (case s of [] \<Rightarrow> None | x # xs \<Rightarrow> if x = c then Some xs else None)"

text \<open>The part \<^verbatim>\<open>"\s*:\s*"[^"]*"\<close> after the word.\<close>

definition field_tail :: "string \<Rightarrow> string option" where
  "field_tail s =
     Option.bind (expect dquote s) (\<lambda>r1.
     Option.bind (expect (CHR '':'') (dropWhile is_space r1)) (\<lambda>r2.
     Option.bind (expect dquote (dropWhile is_space r2)) (\<lambda>r3.
     expect dquote (dropWhile (\<lambda>c. c \<noteq> dquote) r3))))"

text \<open>The alternatives are tried in the order of the pattern; the first that leads to a match wins.\<close>

fun alt_match :: "string list \<Rightarrow> string \<Rightarrow> string option" where
  "alt_match [] s = None"
| "alt_match (w # ws) s =
     (case Option.bind (match_lit w s) field_tail of
        Some r \<Rightarrow> Some r
      | None \<Rightarrow> alt_match ws s)"

text \<open>A match of \<^verbatim>\<open>sensitiveFields\<close> that starts at the first byte of the input: what follows the match.\<close>

definition sensitiveFields_match :: "string \<Rightarrow> string option" where
  "sensitiveFields_match s = Option.bind (expect dquote s) (alt_match sensitiveFields_words)"

lemma fold_match_shorter: "fold_match p s = Some r \<Longrightarrow> length r < length s"
  by (cases s) (auto split: if_splits)

lemma match_lit_shorter: "match_lit w s = Some r \<Longrightarrow> length r \<le> length s"
proof (induction w arbitrary: s)
  case Nil
  then show ?case by simp
next
  case (Cons p ps)
  then obtain r1 where "fold_match p s = Some r1" "match_lit ps r1 = Some r"
    by (auto split: option.splits)
  with Cons.IH [of r1 ] fold_match_shorter [of p s r1] show ?case by simp
qed

lemma expect_shorter: "expect c s = Some r \<Longrightarrow> length r < length s"
  by (cases s) (auto simp add: expect_def split: if_splits)

lemma dropWhile_length: "length (dropWhile P s) \<le> length s"
  by (induction s) auto

lemma field_tail_shorter:
  assumes "field_tail s = Some r"
  shows "length r < length s"
proof -
  from assms obtain r1 r2 r3 where
    a: "expect dquote s = Some r1"
    and b: "expect (CHR '':'') (dropWhile is_space r1) = Some r2"
    and c: "expect dquote (dropWhile is_space r2) = Some r3"
    and d: "expect dquote (dropWhile (\<lambda>c. c \<noteq> dquote) r3) = Some r"
    by (auto simp add: field_tail_def bind_eq_Some_conv)
  from expect_shorter [OF a] have "length r1 < length s" .
  moreover from expect_shorter [OF b] dropWhile_length [of is_space r1]
  have "length r2 < length r1" by simp
  moreover from expect_shorter [OF c] dropWhile_length [of is_space r2]
  have "length r3 < length r2" by simp
  moreover from expect_shorter [OF d] dropWhile_length [of "\<lambda>c. c \<noteq> dquote" r3]
  have "length r < length r3" by simp
  ultimately show ?thesis by simp
qed

lemma alt_match_shorter: "alt_match ws s = Some r \<Longrightarrow> length r < length s"
proof (induction ws)
  case Nil
  then show ?case by simp
next
  case (Cons w ws)
  show ?case
  proof (cases "Option.bind (match_lit w s) field_tail")
    case None
    with Cons show ?thesis by simp
  next
    case (Some r')
    with Cons.prems have "r' = r" by simp
    with Some obtain r1 where "match_lit w s = Some r1" "field_tail r1 = Some r"
      by (auto simp add: bind_eq_Some_conv)
    with match_lit_shorter [of w s r1] field_tail_shorter [of r1 r] show ?thesis by simp
  qed
qed

lemma sensitiveFields_match_shorter:
  "sensitiveFields_match s = Some r \<Longrightarrow> length r < length s"
  by (auto simp add: sensitiveFields_match_def bind_eq_Some_conv
           dest!: expect_shorter alt_match_shorter)

subsection \<open>maskSensitive and safeBodyPreview\<close>

text \<open>
  The function given to \<^verbatim>\<open>ReplaceAllStringFunc\<close>: the match up to its first colon, then
  \<^verbatim>\<open>: "****"\<close>; a match without a colon is returned as it is.
\<close>

definition mask_match :: "string \<Rightarrow> string" where
  \<open>mask_match m =
     (if CHR '':'' \<in> set m then takeWhile (\<lambda>c. c \<noteq> CHR '':'') m @ '': "****"'' else m)\<close>

text \<open>
  \<^verbatim>\<open>sensitiveFields.ReplaceAllStringFunc(s, f)\<close>: the input is scanned from the left; where
  the expression matches, the match is replaced and the scan goes on after it, elsewhere
  one byte is copied.
\<close>

function maskSensitive :: "string \<Rightarrow> string" where
  "maskSensitive [] = []"
| "maskSensitive (c # cs) =
     (case sensitiveFields_match (c # cs) of
        None \<Rightarrow> c # maskSensitive cs
      | Some rest \<Rightarrow>
          mask_match (take (length (c # cs) - length rest) (c # cs)) @ maskSensitive rest)"
  by pat_completeness auto
termination
  by (relation "measure length") (auto dest: sensitiveFields_match_shorter)

definition safeBodyPreview :: "(string \<Rightarrow> string) \<Rightarrow> bytes \<Rightarrow> string \<Rightarrow> string" where
  "safeBodyPreview ul b ct =
     (if length b = 0 then ''<empty>''
      else
        let s = b;
            s = (if Contains (ToLower ul ct) ''application/json'' then maskSensitive s else s)
        in ReplaceAll_newline s)"

subsection \<open>maskQuery\<close>

text \<open>
  \<^verbatim>\<open>url.Values\<close> is a map from a key to its list of values. The loop visits the entries
  in an order that Go does not fix: the argument is the list of entries in the order of
  the visit. The state of the loop is the flag \<^verbatim>\<open>first\<close> and the builder \<^verbatim>\<open>b\<close>.
\<close>

fun maskQuery_loop :: "(string \<times> string list) list \<Rightarrow> bool \<Rightarrow> string \<Rightarrow> string" where
  "maskQuery_loop [] first b = b"
| "maskQuery_loop ((k, vals) # q) first b =
     (let b1 = (if \<not> first then b @ ''&'' else b);
          b2 = b1 @ k @ ''=''
      in if length vals = 0 then maskQuery_loop q False b2
         else
           let v = hd vals;
               b3 = (if sensitiveQueryKeys_MatchString k then b2 @ ''****''
                     else
                       let v1 = (if length v > 120 then take 120 v @ ellipsis else v)
                       in b2 @ ReplaceAll_newline v1)
           in if length b3 > 1024 then take 1024 b3 @ ellipsis
              else maskQuery_loop q False b3)"

definition maskQuery :: "(string \<times> string list) list \<Rightarrow> string" where
  "maskQuery q = (if length q = 0 then ''<none>'' else maskQuery_loop q True [])"

text \<open>
  A key that equals one of the words of \<^verbatim>\<open>sensitiveQueryKeys\<close> up to the case of its
  ASCII letters, and two entries of a query that differ at most in the values of such a
  key (both with a value or both without).
\<close>

definition sensitive_key :: "string \<Rightarrow> bool" where
  "sensitive_key k = (fold_ascii k \<in> set sensitiveQueryKeys_words)"

definition masked_alike :: "string \<times> string list \<Rightarrow> string \<times> string list \<Rightarrow> bool" where
  "masked_alike e e' =
     (fst e = fst e' \<and>
      (if sensitive_key (fst e) then (snd e = []) = (snd e' = []) else snd e = snd e'))"

text \<open>
  A member of a JSON object as it stands in a body: the quoted name, white space, a colon,
  white space and the quoted string value; and a name that equals one of the words of
  \<^verbatim>\<open>sensitiveFields\<close> up to the case of its ASCII letters.
\<close>

definition json_field :: "string \<Rightarrow> string \<Rightarrow> string \<Rightarrow> string \<Rightarrow> string" where
  "json_field k ws1 ws2 v = [dquote] @ k @ [dquote] @ ws1 @ '':'' @ ws2 @ [dquote] @ v @ [dquote]"

definition sensitive_field :: "string \<Rightarrow> bool" where
  "sensitive_field k = (fold_ascii k \<in> set sensitiveFields_words)"

section \<open>The key file codec\<close>

text \<open>
  Modelled from the spec: the Key File Codec (section 4.4), whose code is not among the
  sources. A key file is a versioned, self-describing representation that holds the file
  id, the original filename, the original size and the obfuscation secret under a version
  tag. It is modelled as a JSON object, the representation the server uses for its other
  artifacts. Decoding reads the same fields back; it rejects a version it does not support
  with \<^verbatim>\<open>UnsupportedKeyFileVersion\<close> and malformed content with \<^verbatim>\<open>CorruptKeyFile\<close>. The
  versions that a decoder supports are the parameter \<open>vs\<close>.
\<close>

record KeyFile =
  version :: int
  file_id :: string
  filename :: string
  original_size :: int
  obfuscation_secret :: string

datatype keyfile_error = UnsupportedKeyFileVersion | CorruptKeyFile

definition KeyFile_encode :: "int \<Rightarrow> StoredFile \<Rightarrow> json" where
  "KeyFile_encode v f = JObject
     [(''version'', JNumber v),
      (''file_id'', JString (StoredFile.FileID f)),
      (''original_filename'', JString (StoredFile.OriginalFilename f)),
      (''original_size'', JNumber (OriginalSize f)),
      (''obfuscation_secret'', JString (ObfuscationSeed f))]"

definition member_string :: "(string \<times> json) list \<Rightarrow> string \<Rightarrow> string option" where
  "member_string m k = (case map_of m k of Some (JString s) \<Rightarrow> Some s | _ \<Rightarrow> None)"

definition member_number :: "(string \<times> json) list \<Rightarrow> string \<Rightarrow> int option" where
  "member_number m k = (case map_of m k of Some (JNumber n) \<Rightarrow> Some n | _ \<Rightarrow> None)"

definition KeyFile_decode :: "int list \<Rightarrow> json \<Rightarrow> keyfile_error + KeyFile" where
  "KeyFile_decode vs j =
     (case j of
        JObject m \<Rightarrow>
          (case member_number m ''version'' of
             None \<Rightarrow> Inl CorruptKeyFile
           | Some v \<Rightarrow>
               if v \<notin> set vs then Inl UnsupportedKeyFileVersion
               else
                 (case (member_string m ''file_id'', member_string m ''original_filename'',
                        member_number m ''original_size'', member_string m ''obfuscation_secret'') of
                    (Some i, Some n, Some s, Some k) \<Rightarrow>
                      Inr \<lparr>version = v, file_id = i, filename = n, original_size = s,
                          obfuscation_secret = k\<rparr>
                  | _ \<Rightarrow> Inl CorruptKeyFile))
      | _ \<Rightarrow> Inl CorruptKeyFile)"

section \<open>The reconstruction engine\<close>

text \<open>
  Modelled from the spec: the Download/Reconstruction Engine (section 4.5), whose code is
  not among the sources; the session it drives is the \<^verbatim>\<open>DownloadSession\<close> of the
  sources. The storage-account adapter's \<^verbatim>\<open>readChunk\<close> and the checksum are parameters:
  \<open>rd c\<close> is the outcome of reading the chunk \<open>c\<close> from its account, an error of the
  remote account or the bytes, and \<open>ck\<close> computes the checksum of bytes. The chunks are
  taken in the order in which their reads complete.

  Fetch phase: each chunk's checksum is verified against the recorded value on receipt; a
  mismatch fails the whole session with \<^verbatim>\<open>ChunkCorrupted\<close>, naming the chunk, and so does
  an error of the remote account with that error; nothing is fetched after a failure.
\<close>

datatype download_error =
    ChunkCorrupted int
  | ReconstructionInconsistent
  | RemoteAccount string

fun fetch_phase ::
  "(StoredChunk \<Rightarrow> string + bytes) \<Rightarrow> (bytes \<Rightarrow> string) \<Rightarrow> StoredChunk list
     \<Rightarrow> download_error + (StoredChunk \<times> bytes) list" where
  "fetch_phase rd ck [] = Inr []"
| "fetch_phase rd ck (c # cs) =
     (case rd c of
        Inl e \<Rightarrow> Inl (RemoteAccount e)
      | Inr b \<Rightarrow>
          if ck b \<noteq> Checksum c then Inl (ChunkCorrupted (ChunkID c))
          else (case fetch_phase rd ck cs of
                  Inl e \<Rightarrow> Inl e
                | Inr xs \<Rightarrow> Inr ((c, b) # xs)))"

text \<open>
  Decrypt and reassemble phase: the verified chunks, in ascending order of their start
  offsets, must follow each other from offset 0 without a gap or an overlap, else
  \<^verbatim>\<open>ReconstructionInconsistent\<close>; the artifact is the concatenation of the chunks with the
  obfuscation reversed by \<open>unmask\<close> under the secret of the key file.
\<close>

fun insert_chunk :: "StoredChunk \<times> bytes \<Rightarrow> (StoredChunk \<times> bytes) list \<Rightarrow> (StoredChunk \<times> bytes) list" where
  "insert_chunk x [] = [x]"
| "insert_chunk x (y # ys) =
     (if StartOffset (fst x) \<le> StartOffset (fst y) then x # y # ys else y # insert_chunk x ys)"

definition by_offset :: "(StoredChunk \<times> bytes) list \<Rightarrow> (StoredChunk \<times> bytes) list" where
  "by_offset xs = foldr insert_chunk xs []"

fun reassemble ::
  "(string \<Rightarrow> bytes \<Rightarrow> bytes) \<Rightarrow> string \<Rightarrow> int \<Rightarrow> (StoredChunk \<times> bytes) list
     \<Rightarrow> download_error + bytes" where
  "reassemble unmask secret off [] = Inr []"
| "reassemble unmask secret off ((c, b) # xs) =
     (if StartOffset c \<noteq> off then Inl ReconstructionInconsistent
      else (case reassemble unmask secret (EndOffset c) xs of
              Inl e \<Rightarrow> Inl e
            | Inr rest \<Rightarrow> Inr (unmask secret b @ rest)))"

definition error_name :: "download_error \<Rightarrow> string" where
  "error_name e =
     (case e of
        ChunkCorrupted i \<Rightarrow> ''ChunkCorrupted: chunk '' @ decimal_repr i
      | ReconstructionInconsistent \<Rightarrow> ''ReconstructionInconsistent''
      | RemoteAccount m \<Rightarrow> m)"

definition fail_session :: "DownloadSession \<Rightarrow> download_error \<Rightarrow> DownloadSession" where
  "fail_session s e = s\<lparr>Status := ''failed'', ErrorMessage := error_name e\<rparr>"

text \<open>
  One run of a session that is in \<^verbatim>\<open>downloading\<close>: the final session and the
  reconstructed artifact, if one was produced. \<open>out\<close> is the path of the artifact and
  \<open>now\<close> the time of completion.
\<close>

definition reconstruct ::
  "(StoredChunk \<Rightarrow> string + bytes) \<Rightarrow> (bytes \<Rightarrow> string) \<Rightarrow> (string \<Rightarrow> bytes \<Rightarrow> bytes)
     \<Rightarrow> KeyFile \<Rightarrow> string \<Rightarrow> Time \<Rightarrow> StoredChunk list \<Rightarrow> DownloadSession
     \<Rightarrow> DownloadSession \<times> bytes option" where
  "reconstruct rd ck unmask key out now chunks s =
     (case fetch_phase rd ck chunks of
        Inl e \<Rightarrow> (fail_session s e, None)
      | Inr xs \<Rightarrow>
          (let s1 = s\<lparr>Status := ''decrypting''\<rparr> in
           case reassemble unmask (obfuscation_secret key) 0 (by_offset xs) of
             Inl e \<Rightarrow> (fail_session s1 e, None)
           | Inr data \<Rightarrow>
               (s1\<lparr>Status := ''complete'', Progress := 100, ReconstructedPath := out,
                    CompletedAt := Some now\<rparr>, Some data)))"

section \<open>The chunk allocation planner\<close>

text \<open>
  Modelled from the spec: the Chunk Allocation Planner (section 4.1), whose code is not
  among the sources. The planner is a pure function of the file size, the strategy and the
  linked accounts with the free capacity each reports. It chooses a target chunk size
  bounded by the configured minimum and maximum, takes \<open>ceil(size / target)\<close> chunks, and
  under the balanced strategy gives each chunk in turn to the account, among those whose
  remaining free capacity can absorb the chunk, with the most remaining free capacity;
  the capacity of that account is reduced before the next chunk is assigned. It fails with
  \<^verbatim>\<open>NoLinkedAccounts\<close> when there is no account and with \<^verbatim>\<open>InsufficientCapacity\<close> when the
  total free capacity is less than the file size and the safety margin, or when no
  account can absorb a chunk. Balanced is the only strategy that the spec defines.
\<close>

record PlannerConfig =
  min_chunk_size :: nat
  max_chunk_size :: nat
  preferred_chunk_size :: nat
  safety_margin :: nat

record ChunkPlanEntry =
  chunk_index :: nat
  size' :: nat
  start_offset :: nat
  end_offset :: nat
  target_account :: string

datatype planner_error = InsufficientCapacity | NoLinkedAccounts

datatype strategy = Balanced

definition target_chunk_size :: "PlannerConfig \<Rightarrow> nat" where
  "target_chunk_size cfg = max (min_chunk_size cfg) (min (max_chunk_size cfg) (preferred_chunk_size cfg))"

definition chunk_count :: "nat \<Rightarrow> nat \<Rightarrow> nat" where
  "chunk_count sz t = (sz + t - 1) div t"

text \<open>The byte ranges of the chunks: chunk \<open>i\<close> starts at \<open>i * t\<close> and ends before \<open>(i + 1) * t\<close> or at the end of the file.\<close>

definition plan_ranges :: "nat \<Rightarrow> nat \<Rightarrow> (nat \<times> nat) list" where
  "plan_ranges sz t = map (\<lambda>i. (i * t, min ((i + 1) * t) sz)) [0..<chunk_count sz t]"

fun heaviest :: "string \<times> nat \<Rightarrow> (string \<times> nat) list \<Rightarrow> string \<times> nat" where
  "heaviest b [] = b"
| "heaviest b (x # xs) = heaviest (if snd x > snd b then x else b) xs"

definition pick :: "(string \<times> nat) list \<Rightarrow> nat \<Rightarrow> string option" where
  "pick rem need =
     (case filter (\<lambda>x. need \<le> snd x) rem of
        [] \<Rightarrow> None
      | x # xs \<Rightarrow> Some (fst (heaviest x xs)))"

definition debit :: "(string \<times> nat) list \<Rightarrow> string \<Rightarrow> nat \<Rightarrow> (string \<times> nat) list" where
  "debit rem a n = map (\<lambda>x. if fst x = a then (fst x, snd x - n) else x) rem"

fun allocate ::
  "(string \<times> nat) list \<Rightarrow> nat \<Rightarrow> (nat \<times> nat) list \<Rightarrow> planner_error + ChunkPlanEntry list" where
  "allocate rem i [] = Inr []"
| "allocate rem i ((s, e) # rs) =
     (case pick rem (e - s) of
        None \<Rightarrow> Inl InsufficientCapacity
      | Some a \<Rightarrow>
          (case allocate (debit rem a (e - s)) (Suc i) rs of
             Inl err \<Rightarrow> Inl err
           | Inr p \<Rightarrow>
               Inr (\<lparr>chunk_index = i, size' = e - s, start_offset = s, end_offset = e,
                     target_account = a\<rparr> # p)))"

definition plan ::
  "PlannerConfig \<Rightarrow> nat \<Rightarrow> strategy \<Rightarrow> (string \<times> nat) list
     \<Rightarrow> planner_error + ChunkPlanEntry list" where
  "plan cfg sz strat accts =
     (if accts = [] then Inl NoLinkedAccounts
      else if sum_list (map snd accts) < sz + safety_margin cfg then Inl InsufficientCapacity
      else (case strat of
              Balanced \<Rightarrow> allocate accts 0 (plan_ranges sz (target_chunk_size cfg))))"

text \<open>
  The invariants of a plan: the chunks follow each other from \<open>off\<close> to \<open>e\<close>, each
  non-empty and of the size of its range; and the bytes that a plan sends to an account.
\<close>

fun contiguous :: "nat \<Rightarrow> ChunkPlanEntry list \<Rightarrow> nat \<Rightarrow> bool" where
  "contiguous off [] e = (off = e)"
| "contiguous off (c # cs) e =
     (start_offset c = off \<and> start_offset c < end_offset c
      \<and> size' c = end_offset c - start_offset c \<and> contiguous (end_offset c) cs e)"

definition load :: "ChunkPlanEntry list \<Rightarrow> string \<Rightarrow> nat" where
  "load p a = sum_list (map size' (filter (\<lambda>c. target_account c = a) p))"

fun chain :: "nat \<Rightarrow> (nat \<times> nat) list \<Rightarrow> nat \<Rightarrow> bool" where
  "chain off [] e = (off = e)"
| "chain off ((s, e') # rs) e = (s = off \<and> s < e' \<and> chain e' rs e)"

text \<open>
  What the loop of \<^verbatim>\<open>maskQuery\<close> writes for one entry: the key, \<^verbatim>\<open>=\<close>, and for an entry
  with a value either \<^verbatim>\<open>****\<close>, when the key matches \<^verbatim>\<open>sensitiveQueryKeys\<close>, or the first
  value, cut at 120 bytes and with its newlines replaced; and the texts of several entries
  joined by \<^verbatim>\<open>&\<close>.
\<close>

definition entry_text :: "string \<times> string list \<Rightarrow> string" where
  "entry_text e =
     fst e @ ''='' @
     (if snd e = [] then []
      else if sensitiveQueryKeys_MatchString (fst e) then ''****''
      else ReplaceAll_newline
             (if length (hd (snd e)) > 120 then take 120 (hd (snd e)) @ ellipsis else hd (snd e)))"

fun join_amp :: "string list \<Rightarrow> string" where
  "join_amp [] = []"
| "join_amp [x] = x"
| "join_amp (x # y # ys) = x @ ''&'' @ join_amp (y # ys)"

section \<open>Properties\<close>

subsection \<open>limitedBuffer\<close>

lemma Write_result: "snd (Write l p) = (int (length p), None)"
  by (simp add: Write_def Buffer_Write_def Let_def)

lemma Write_max: "max' (fst (Write l p)) = max' l"
  by (simp add: Write_def Buffer_Write_def Let_def)

lemma Write_buf:
  assumes "0 \<le> max' l" and "buf l = take (nat (max' l)) xs"
  shows "buf (fst (Write l p)) = take (nat (max' l)) (xs @ p)"
proof (cases "length xs \<ge> nat (max' l)")
  case True
  with assms have "length (buf l) = nat (max' l)" by simp
  with assms True show ?thesis by (simp add: Write_def Let_def)
next
  case False
  with assms have len: "buf l = xs" by simp
  have n: "nat (max' l - int (length xs)) = nat (max' l) - length xs" by arith
  from False assms len n show ?thesis
    by (auto simp add: Write_def Let_def Buffer_Write_def)
qed

lemma Writes_rets: "snd (Writes l ps) = map (\<lambda>p. (int (length p), None)) ps"
proof (induction ps arbitrary: l)
  case Nil
  show ?case by simp
next
  case (Cons p ps)
  obtain l1 n e where w: "Write l p = (l1, n, e)" by (cases "Write l p") auto
  with Write_result [of l p] have ne: "n = int (length p)" "e = None" by simp_all
  obtain l2 rs where ws: "Writes l1 ps = (l2, rs)" by (cases "Writes l1 ps") auto
  with Cons.IH [of l1] have "rs = map (\<lambda>p. (int (length p), None)) ps" by simp
  with w ws ne show ?case by simp
qed

lemma Writes_buf:
  assumes "0 \<le> max' l" and "buf l = take (nat (max' l)) xs"
  shows "buf (fst (Writes l ps)) = take (nat (max' l)) (xs @ concat ps)"
  using assms
proof (induction ps arbitrary: l xs)
  case Nil
  then show ?case by simp
next
  case (Cons p ps)
  obtain l1 n e where w: "Write l p = (l1, n, e)" by (cases "Write l p") auto
  obtain l2 rs where ws: "Writes l1 ps = (l2, rs)" by (cases "Writes l1 ps") auto
  from w Write_max [of l p] have m: "max' l1 = max' l" by simp
  from w Write_buf [OF Cons.prems, of p] have b: "buf l1 = take (nat (max' l1)) (xs @ p)"
    by (simp add: m)
  from Cons.prems m have "0 \<le> max' l1" by simp
  from Cons.IH [OF this b] ws have "buf l2 = take (nat (max' l1)) ((xs @ p) @ concat ps)"
    by simp
  with w ws m show ?case by simp
qed

text \<open>
  C8. A limitedBuffer of capacity \<open>max \<ge> 0\<close> that starts empty: every Write of a sequence
  returns the length of its input and a nil error, and afterwards Bytes() is the first
  \<open>min max total\<close> bytes of the concatenation of the inputs, so at most \<open>max\<close> bytes
  are retained.
\<close>

theorem limitedBuffer_invariant:
  assumes "0 \<le> max' l" and "buf l = []"
  shows "snd (Writes l ps) = map (\<lambda>p. (int (length p), None)) ps
       \<and> Bytes (fst (Writes l ps))
           = take (min (nat (max' l)) (length (concat ps))) (concat ps)
       \<and> int (length (Bytes (fst (Writes l ps)))) \<le> max' l"
proof -
  from assms have "buf l = take (nat (max' l)) []" by simp
  from Writes_buf [OF assms(1) this, of ps]
  have b: "Bytes (fst (Writes l ps)) = take (nat (max' l)) (concat ps)"
    by (simp add: Bytes_def)
  have t: "take (nat (max' l)) (concat ps)
             = take (min (nat (max' l)) (length (concat ps))) (concat ps)"
    by (simp add: min_def)
  have "int (length (take (nat (max' l)) (concat ps))) \<le> max' l"
    using assms(1) by simp
  with b have c: "int (length (Bytes (fst (Writes l ps)))) \<le> max' l"
    by simp
  from b t have d: "Bytes (fst (Writes l ps))
      = take (min (nat (max' l)) (length (concat ps))) (concat ps)"
    by simp
  from Writes_rets [of l ps] d c show ?thesis by blast
qed

theorem limitedBuffer_invariant_witness:
  "snd (Writes \<lparr>buf = [], max' = 4\<rparr> [''abc'', ''de'', ''f''])
     = [(3, None), (2, None), (1, None)]
   \<and> Bytes (fst (Writes \<lparr>buf = [], max' = 4\<rparr> [''abc'', ''de'', ''f''])) = ''abcd''"
  using limitedBuffer_invariant [of "\<lparr>buf = [], max' = 4\<rparr>" "[''abc'', ''de'', ''f'']"]
  by simp

subsection \<open>maskAuthorization\<close>

lemma SplitN2_space:
  assumes "sep \<notin> set a"
  shows "SplitN2 (a @ sep # b) sep = [a, b]"
proof -
  from assms have t: "takeWhile (\<lambda>c. c \<noteq> sep) (a @ sep # b) = a"
    by (induction a) auto
  from assms have d: "dropWhile (\<lambda>c. c \<noteq> sep) (a @ sep # b) = sep # b"
    by (induction a) auto
  show ?thesis by (simp add: SplitN2_def t d)
qed

text \<open>
  C9. The empty header maps to the empty string; a non-empty header without a space maps
  to \<^verbatim>\<open><masked>\<close>; a header made of a scheme (the part before the first space), a
  space and a token maps to the scheme and \<^verbatim>\<open> ****\<close> when the token has at most 8
  bytes, and otherwise to the scheme, a space, the first 4 bytes of the token,
  \<^verbatim>\<open>****\<close> and its last 4 bytes: at most 8 bytes of a token are shown.
\<close>

theorem maskAuthorization_cases:
  "maskAuthorization [] = []
   \<and> (h \<noteq> [] \<and> CHR '' '' \<notin> set h \<longrightarrow> maskAuthorization h = ''<masked>'')
   \<and> (CHR '' '' \<notin> set scheme \<longrightarrow>
        maskAuthorization (scheme @ '' '' @ tok) =
          (if length tok \<le> 8 then scheme @ '' ****''
           else scheme @ '' '' @ take 4 tok @ ''****'' @ drop (length tok - 4) tok))"
proof (intro conjI impI)
  show "maskAuthorization [] = []" by (simp add: maskAuthorization_def)
next
  assume "h \<noteq> [] \<and> CHR '' '' \<notin> set h"
  then show "maskAuthorization h = ''<masked>''"
    by (simp add: maskAuthorization_def SplitN2_def)
next
  assume s: "CHR '' '' \<notin> set scheme"
  have sp: "SplitN2 (scheme @ '' '' @ tok) (CHR '' '') = [scheme, tok]"
    using SplitN2_space [OF s, of tok] by simp
  show "maskAuthorization (scheme @ '' '' @ tok) =
          (if length tok \<le> 8 then scheme @ '' ****''
           else scheme @ '' '' @ take 4 tok @ ''****'' @ drop (length tok - 4) tok)"
    unfolding maskAuthorization_def sp by (simp add: Let_def)
qed

theorem maskAuthorization_cases_witness:
  "maskAuthorization ''opaque'' = ''<masked>''
   \<and> maskAuthorization ''Bearer abc'' = ''Bearer ****''
   \<and> maskAuthorization ''Bearer abcdefghijkl'' = ''Bearer abcd****ijkl''"
  using maskAuthorization_cases [of "''opaque''" "''Bearer''" "''abc''"]
        maskAuthorization_cases [of "''opaque''" "''Bearer''" "''abcdefghijkl''"]
  by simp

subsection \<open>The JSON encoding of StoredFile\<close>

text \<open>
  C2. The JSON encoding of a StoredFile leaves the ObfuscationSeed out: two stored files
  that differ in the seed alone have the same encoding, an object whose members are the
  nine other fields.
\<close>

theorem StoredFile_json_hides_seed:
  "StoredFile_json (f\<lparr>ObfuscationSeed := a\<rparr>) = StoredFile_json (f\<lparr>ObfuscationSeed := b\<rparr>)
   \<and> (\<exists>ms. StoredFile_json f = JObject ms
          \<and> map fst ms = [''id'', ''file_id'', ''user_id'', ''original_filename'',
                ''original_size'', ''processed_size'', ''chunks'', ''created_at'', ''status''])"
  by (simp add: StoredFile_json_def)

subsection \<open>GenerateFileID\<close>

lemma hextable_nth: "n < 16 \<Longrightarrow> is_lower_hex (hextable ! n)"
  unfolding is_lower_hex_def hextable_def
  by (rule nth_mem) simp

lemma of_char_lt: "(of_char (c::char) :: nat) < 256"
proof -
  have "(of_char c :: nat) mod 256 < 256" by (rule mod_less_divisor) simp
  then show ?thesis by simp
qed

lemma EncodeToString_length: "length (EncodeToString src) = 2 * length src"
  by (induction src) (simp_all add: EncodeToString_def)

lemma EncodeToString_hex: "list_all is_lower_hex (EncodeToString src)"
proof (induction src)
  case Nil
  show ?case by (simp add: EncodeToString_def)
next
  case (Cons v src)
  have "(of_char v :: nat) div 16 < 16" using of_char_lt [of v] by arith
  moreover have "(of_char v :: nat) mod 16 < 16" by simp
  ultimately show ?case using Cons
    by (simp add: EncodeToString_def hextable_nth)
qed

text \<open>
  C3. For the twelve bytes of a new ObjectID, GenerateFileID returns a string of exactly 12
  characters, each a lower-case hexadecimal digit, that is a prefix of the 24 characters
  of the hex encoding of the ObjectID.
\<close>

theorem GenerateFileID_shape:
  assumes "length oid = 12"
  shows "\<exists>fid. GenerateFileID oid = Some fid \<and> length fid = 12
           \<and> list_all is_lower_hex fid
           \<and> length (Hex oid) = 24 \<and> prefix fid (Hex oid)"
proof -
  let ?h = "Hex oid"
  from assms have len: "length ?h = 24" by (simp add: Hex_def EncodeToString_length)
  then have g: "GenerateFileID oid = Some (take 12 ?h)" by (simp add: GenerateFileID_def Let_def)
  have "list_all is_lower_hex ?h" by (simp add: Hex_def EncodeToString_hex)
  then have "\<forall>c \<in> set ?h. is_lower_hex c" by (simp add: list_all_iff)
  moreover have "set (take 12 ?h) \<subseteq> set ?h" by (rule set_take_subset)
  ultimately have hx: "list_all is_lower_hex (take 12 ?h)" by (auto simp add: list_all_iff)
  have "prefix (take 12 ?h) ?h" by (rule take_is_prefix)
  with g len hx show ?thesis by simp
qed

theorem GenerateFileID_shape_witness:
  "GenerateFileID [CHR 0x65, CHR 0x4a, CHR 0x1b, CHR 0x2c, CHR 0x00, CHR 0xff,
                   CHR 0x10, CHR 0x20, CHR 0x30, CHR 0x40, CHR 0x50, CHR 0x60]
     = Some ''654a1b2c00ff''"
proof -
  let ?oid = "[CHR 0x65, CHR 0x4a, CHR 0x1b, CHR 0x2c, CHR 0x00, CHR 0xff,
               CHR 0x10, CHR 0x20, CHR 0x30, CHR 0x40, CHR 0x50, CHR 0x60]"
  have l: "length ?oid = 12" by simp
  have h: "Hex ?oid = ''654a1b2c00ff102030405060''" by code_simp
  from GenerateFileID_shape [OF l] obtain fid where
    "GenerateFileID ?oid = Some fid" "length fid = 12" "prefix fid (Hex ?oid)" by blast
  then show ?thesis by (simp add: GenerateFileID_def Let_def h)
qed

subsection \<open>strconvFormatInt\<close>

declare digs.simps [simp del]
declare decimal_nat.simps [simp del]
declare fmt_loop.simps [simp del]

lemma digs_0: "digs 0 = []"
  by (simp add: digs.simps [of 0])

lemma fmt_loop_0: "fmt_loop 0 b bp = Some (b, bp)"
  by (simp add: fmt_loop.simps [of 0])

lemma digs_decimal: "0 < n \<Longrightarrow> digs n = decimal_nat n"
proof (induction n rule: decimal_nat.induct)
  case (1 n)
  show ?case
  proof (cases "n < 10")
    case True
    with "1.prems" have "n div 10 = 0" "n mod 10 = n" by simp_all
    with "1.prems" True show ?thesis
      by (simp add: digs.simps [of n] digs_0 decimal_nat.simps [of n])
  next
    case False
    then have "0 < n div 10" by simp
    with "1.IH" False have "digs (n div 10) = decimal_nat (n div 10)" by simp
    with False show ?thesis
      by (simp add: digs.simps [of n] decimal_nat.simps [of n])
  qed
qed

lemma digs_length: "n < 10 ^ k \<Longrightarrow> length (digs n) \<le> k"
proof (induction k arbitrary: n)
  case 0
  then show ?case by (simp add: digs_0)
next
  case (Suc k)
  show ?case
  proof (cases "n = 0")
    case True
    then show ?thesis by (simp add: digs_0)
  next
    case False
    from Suc.prems have "n div 10 < 10 ^ k" by simp
    from Suc.IH [OF this] False show ?thesis by (simp add: digs.simps [of n])
  qed
qed

lemma drop_update_here:
  "k < length b \<Longrightarrow> drop k (b[k := c]) = c # drop (Suc k) b"
  by (simp add: Cons_nth_drop_Suc [symmetric])

lemma fmt_loop_digs:
  "0 \<le> i \<Longrightarrow> length (digs (nat i)) \<le> bp \<Longrightarrow> bp \<le> length b \<Longrightarrow>
   \<exists>b'. fmt_loop i b bp = Some (b', bp - length (digs (nat i)))
        \<and> length b' = length b
        \<and> drop (bp - length (digs (nat i))) b' = digs (nat i) @ drop bp b"
proof (induction i b bp rule: fmt_loop.induct)
  case (1 i b bp)
  show ?case
  proof (cases "i > 0")
    case False
    with "1.prems" have "i = 0" by simp
    then show ?thesis by (simp add: fmt_loop_0 digs_0)
  next
    case True
    then have ne: "nat i \<noteq> 0" by simp
    have d: "digs (nat i) = digs (nat (i div 10)) @ [digit_char (nat i mod 10)]"
      using ne True by (simp add: digs.simps [of "nat i"] nat_div_distrib)
    with "1.prems" have bp: "bp \<noteq> 0" "bp - 1 < length b" by auto
    let ?c = "char_of (48 + i mod 10) :: char"
    let ?b1 = "b[bp - 1 := ?c]"
    have c: "?c = digit_char (nat i mod 10)"
    proof -
      have "int (nat i mod 10) = int (nat i) mod 10" by (simp add: zmod_int)
      with True have "48 + i mod 10 = int (48 + nat i mod 10)" by simp
      then show ?thesis unfolding digit_char_def by (simp only: char_of_nat)
    qed
    have l: "length (digs (nat (i div 10))) \<le> bp - 1" using d "1.prems" by simp
    have "0 \<le> i div 10" using True by simp
    from "1.IH" [OF True _ this l] bp "1.prems"
    obtain b' where r: "fmt_loop (i div 10) ?b1 (bp - 1) = Some (b', bp - 1 - length (digs (nat (i div 10))))"
      and len: "length b' = length ?b1"
      and dr: "drop (bp - 1 - length (digs (nat (i div 10)))) b' = digs (nat (i div 10)) @ drop (bp - 1) ?b1"
      by auto
    have e: "bp - 1 - length (digs (nat (i div 10))) = bp - length (digs (nat i))"
      by (simp add: d)
    have u: "drop (bp - 1) ?b1 = ?c # drop bp b"
      using drop_update_here [of "bp - 1" b ?c] bp by simp
    have "digs (nat (i div 10)) @ drop (bp - 1) ?b1 = digs (nat i) @ drop bp b"
      by (simp only: u) (simp only: c d append_assoc append_Cons append_Nil)
    with dr have dr': "drop (bp - length (digs (nat i))) b' = digs (nat i) @ drop bp b"
      by (simp only: e)
    have "fmt_loop i b bp = fmt_loop (i div 10) ?b1 (bp - 1)"
      using True bp by (subst fmt_loop.simps) simp
    also have "\<dots> = Some (b', bp - length (digs (nat i)))"
      by (simp only: r e)
    finally have f: "fmt_loop i b bp = Some (b', bp - length (digs (nat i)))" .
    from len have "length b' = length b" by simp
    with f dr' show ?thesis by blast
  qed
qed


lemma digit_char_0: "digit_char 0 = CHR ''0''"
  by code_simp

lemma fmt_loop_result:
  assumes "0 < i" and "i < 2 ^ 63"
  shows "\<exists>b' bp'. fmt_loop i (replicate 20 (CHR 0x00)) 20 = Some (b', bp')
           \<and> length b' = 20 \<and> 0 < bp' \<and> bp' \<le> 20 \<and> drop bp' b' = decimal_nat (nat i)"
proof -
  let ?b = "replicate 20 (CHR 0x00)"
  let ?n = "length (digs (nat i))"
  have "(2::int) ^ 63 < 10 ^ 19" by simp
  with assms have "nat i < nat (10 ^ 19)" by simp
  then have "nat i < 10 ^ 19" by simp
  then have n: "?n \<le> 19" by (rule digs_length)
  from assms have i0: "0 \<le> i" by simp
  have "?n \<le> 20" using n by simp
  from fmt_loop_digs [OF i0 this, of ?b]
  obtain b' where r: "fmt_loop i ?b 20 = Some (b', 20 - ?n)"
    and len: "length b' = 20"
    and dr: "drop (20 - ?n) b' = digs (nat i)"
    by auto
  from assms have "digs (nat i) = decimal_nat (nat i)" by (simp add: digs_decimal)
  with dr have "drop (20 - ?n) b' = decimal_nat (nat i)" by simp
  moreover have "0 < 20 - ?n" "20 - ?n \<le> 20" using n by simp_all
  ultimately show ?thesis using r len by blast
qed

lemma wrap64_neg:
  assumes "i < 0" and "int64_min < i"
  shows "wrap64 (- i) = - i"
proof -
  from assms have "0 \<le> - i + 2 ^ 63" "- i + 2 ^ 63 < 2 ^ 64"
    by (simp_all add: int64_min_def)
  then have "(- i + 2 ^ 63) mod 2 ^ 64 = - i + 2 ^ 63" by (rule mod_pos_pos_trivial)
  then show ?thesis by (simp add: wrap64_def)
qed

text \<open>
  C10. For every \<^verbatim>\<open>int64\<close> above the least one, strconvFormatInt returns the standard
  decimal representation, with a leading \<^verbatim>\<open>-\<close> for a negative number; and toSeconds of
  the preflight max-age of 24 hours is \<^verbatim>\<open>86400\<close>.
\<close>

theorem strconvFormatInt_decimal:
  "(int64_min < i \<and> i \<le> int64_max \<longrightarrow> strconvFormatInt i = Some (decimal_repr i))
   \<and> toSeconds maxAge = Some ''86400''"
proof (intro conjI impI)
  assume r: "int64_min < i \<and> i \<le> int64_max"
  show "strconvFormatInt i = Some (decimal_repr i)"
  proof (cases "i = 0")
    case True
    then show ?thesis
      by (simp add: strconvFormatInt_def decimal_repr_def decimal_nat.simps [of 0] digit_char_0)
  next
    case nz: False
    show ?thesis
    proof (cases "i < 0")
      case False
      with nz r have p: "0 < i" "i < 2 ^ 63" by (simp_all add: int64_max_def)
      from fmt_loop_result [OF p] obtain b' bp' where
        f: "fmt_loop i (replicate 20 (CHR 0x00)) 20 = Some (b', bp')"
        and d: "drop bp' b' = decimal_nat (nat i)" by blast
      from nz False f d show ?thesis
        by (simp add: strconvFormatInt_def decimal_repr_def)
    next
      case True
      with r have w: "wrap64 (- i) = - i" by (simp add: wrap64_neg)
      from True r have p: "0 < - i" "- i < 2 ^ 63" by (simp_all add: int64_min_def)
      from fmt_loop_result [OF p] obtain b' bp' where
        f: "fmt_loop (- i) (replicate 20 (CHR 0x00)) 20 = Some (b', bp')"
        and len: "length b' = 20" and bp: "0 < bp'" "bp' \<le> 20"
        and d: "drop bp' b' = decimal_nat (nat (- i))" by blast
      from bp len have k: "bp' - 1 < length b'" by simp
      from drop_update_here [OF k, of "CHR ''-''"] bp
      have u: "drop (bp' - 1) (b'[bp' - 1 := CHR ''-'']) = CHR ''-'' # drop bp' b'" by simp
      from nz True bp k w f u d show ?thesis
        by (simp add: strconvFormatInt_def decimal_repr_def)
    qed
  qed
next
  have s: "maxAge sdiv Second = 86400"
    by (simp add: maxAge_def Hour_def Second_def signed_divide_int_def)
  have m: "int64_min < 86400 \<and> (86400::int) \<le> int64_max"
    by (simp add: int64_min_def int64_max_def)
  show "toSeconds maxAge = Some ''86400''" by code_simp
qed

theorem strconvFormatInt_decimal_witness:
  "int64_min < - 1234 \<and> - 1234 \<le> int64_max
   \<and> strconvFormatInt (- 1234) = Some ''-1234''"
proof -
  have d: "decimal_repr (- 1234) = ''-1234''" by code_simp
  have r: "int64_min < - 1234 \<and> - 1234 \<le> int64_max"
    by (simp add: int64_min_def int64_max_def)
  from strconvFormatInt_decimal [of "- 1234"] r d show ?thesis by simp
qed

text \<open>
  At the least \<^verbatim>\<open>int64\<close> the negation wraps around to the same value, the loop
  writes no digit and the result is the sign alone.
\<close>

lemma strconvFormatInt_int64_min: "strconvFormatInt int64_min = Some ''-''"
  by code_simp

subsection \<open>maskQuery\<close>

lemma lower_ascii_cases: "lower_ascii c = p \<Longrightarrow> c = p \<or> c = upper_ascii p"
proof -
  assume l: "lower_ascii c = p"
  let ?n = "of_char c :: nat"
  show ?thesis
  proof (cases "65 \<le> ?n \<and> ?n \<le> 90")
    case False
    with l show ?thesis by (auto simp add: lower_ascii_def Let_def)
  next
    case True
    with l have p: "p = char_of (?n + 32)" by (simp add: lower_ascii_def Let_def)
    from True have "(?n + 32) mod 256 = ?n + 32" by simp
    then have "(of_char p :: nat) = ?n + 32" by (simp add: p)
    with True have "upper_ascii p = char_of ?n" by (simp add: upper_ascii_def Let_def)
    then show ?thesis by simp
  qed
qed

lemma fold_match_lower: "lower_ascii c = p \<Longrightarrow> fold_match p (c # cs) = Some cs"
  using lower_ascii_cases [of c p] by auto

lemma match_lit_fold_ascii: "fold_ascii k = w \<Longrightarrow> match_lit w (k @ r) = Some r"
proof (induction w arbitrary: k)
  case Nil
  then show ?case by (simp add: fold_ascii_def)
next
  case (Cons p ps)
  then obtain c k' where k: "k = c # k'" "lower_ascii c = p" "fold_ascii k' = ps"
    by (auto simp add: fold_ascii_def)
  from Cons.IH [OF k(3)] fold_match_lower [OF k(2)] k(1) show ?case by simp
qed

lemma sensitive_key_MatchString: "sensitive_key k \<Longrightarrow> sensitiveQueryKeys_MatchString k"
proof -
  assume "sensitive_key k"
  then have m: "fold_ascii k \<in> set sensitiveQueryKeys_words" by (simp add: sensitive_key_def)
  from match_lit_fold_ascii [of k "fold_ascii k" "[]"] have "match_lit (fold_ascii k) k = Some []" by simp
  with m show ?thesis
    unfolding sensitiveQueryKeys_MatchString_def list_ex_iff by blast
qed

lemma maskQuery_loop_sensitive:
  assumes "sensitive_key k"
  shows "maskQuery_loop ((k, v # vs) # q) first b =
           (let b3 = (if first then b else b @ ''&'') @ k @ ''=****''
            in if length b3 > 1024 then take 1024 b3 @ ellipsis
               else maskQuery_loop q False b3)"
  using sensitive_key_MatchString [OF assms] by (simp add: Let_def)

lemma maskQuery_loop_alike:
  "list_all2 masked_alike q q' \<Longrightarrow> maskQuery_loop q first b = maskQuery_loop q' first b"
proof (induction q q' arbitrary: first b rule: list_all2_induct)
  case Nil
  show ?case by simp
next
  case (Cons e q e' q')
  obtain k vs where e: "e = (k, vs)" by (cases e)
  obtain k' vs' where e': "e' = (k', vs')" by (cases e')
  from Cons.hyps(1) e e' have k: "k' = k" by (simp add: masked_alike_def)
  show ?case
  proof (cases "sensitive_key k")
    case True
    with Cons.hyps(1) e e' k have em: "(vs = []) = (vs' = [])" by (simp add: masked_alike_def)
    from True have m: "sensitiveQueryKeys_MatchString k" by (rule sensitive_key_MatchString)
    show ?thesis
    proof (cases "vs = []")
      case True
      with em have "vs' = []" by simp
      with True e e' k Cons.IH show ?thesis by (simp add: Let_def)
    next
      case False
      with em have "vs' \<noteq> []" by simp
      with False e e' k m Cons.IH show ?thesis by (simp add: Let_def)
    qed
  next
    case False
    with Cons.hyps(1) e e' k have "vs' = vs" by (simp add: masked_alike_def)
    with e e' k Cons.IH show ?thesis by (simp add: Let_def)
  qed
qed

lemma join_amp_snoc:
  "join_amp (xs @ [x]) = (if xs = [] then x else join_amp xs @ ''&'' @ x)"
  by (induction xs rule: join_amp.induct) auto

lemma join_amp_prefix_length: "length (join_amp xs) \<le> length (join_amp (xs @ ys))"
proof (induction ys rule: rev_induct)
  case Nil
  show ?case by simp
next
  case (snoc y ys)
  have "length (join_amp (xs @ ys)) \<le> length (join_amp ((xs @ ys) @ [y]))"
    by (simp only: join_amp_snoc) simp
  with snoc show ?case by simp
qed

lemma entry_text_sensitive:
  "sensitive_key k \<Longrightarrow> entry_text (k, v # vs) = k @ ''=****''"
  using sensitive_key_MatchString [of k] by (simp add: entry_text_def)

text \<open>One step of the loop: the builder after an entry is the joined text with that entry.\<close>

lemma loop_step:
  assumes "b = join_amp (map entry_text seen)" and "first = (seen = [])"
  shows "maskQuery_loop (e # q) first b =
           (let b3 = join_amp (map entry_text (seen @ [e]))
            in if snd e \<noteq> [] \<and> length b3 > 1024 then take 1024 b3 @ ellipsis
               else maskQuery_loop q False b3)"
proof -
  obtain k vals where e: "e = (k, vals)" by (cases e)
  have c: "maskQuery_loop ((k, vals) # q) first b =
           (let b3 = (if first then b else b @ ''&'') @ entry_text (k, vals)
            in if vals \<noteq> [] \<and> length b3 > 1024 then take 1024 b3 @ ellipsis
               else maskQuery_loop q False b3)"
  proof (cases "vals = []")
    case True
    then show ?thesis by (simp add: Let_def entry_text_def)
  next
    case False
    then show ?thesis by (simp add: Let_def entry_text_def)
  qed
  have "join_amp (map entry_text (seen @ [(k, vals)]))
          = (if seen = [] then entry_text (k, vals)
             else join_amp (map entry_text seen) @ ''&'' @ entry_text (k, vals))"
    using join_amp_snoc [of "map entry_text seen" "entry_text (k, vals)"] by simp
  with assms have j: "join_amp (map entry_text (seen @ [(k, vals)]))
          = (if first then b else b @ ''&'') @ entry_text (k, vals)"
    by simp
  show ?thesis unfolding e j snd_conv by (rule c)
qed

lemma loop_shape:
  assumes "b = join_amp (map entry_text seen)" and "first = (seen = [])"
  shows "maskQuery_loop q first b = join_amp (map entry_text (seen @ q))
       \<or> (\<exists>n \<le> length q. maskQuery_loop q first b
             = take 1024 (join_amp (map entry_text (seen @ take n q))) @ ellipsis)"
  using assms
proof (induction q arbitrary: seen first b)
  case Nil
  then show ?case by simp
next
  case (Cons e q)
  let ?b3 = "join_amp (map entry_text (seen @ [e]))"
  note st = loop_step [OF Cons.prems, of e q]
  show ?case
  proof (cases "snd e \<noteq> [] \<and> length ?b3 > 1024")
    case True
    with st have "maskQuery_loop (e # q) first b
        = take 1024 (join_amp (map entry_text (seen @ take 1 (e # q)))) @ ellipsis"
      by (simp add: Let_def)
    moreover have "(1::nat) \<le> length (e # q)" by simp
    ultimately show ?thesis by blast
  next
    case False
    with st have r: "maskQuery_loop (e # q) first b = maskQuery_loop q False ?b3"
      by (auto simp add: Let_def)
    have f: "False = (seen @ [e] = [])" by simp
    from Cons.IH [OF refl f]
    consider (a) "maskQuery_loop q False ?b3 = join_amp (map entry_text ((seen @ [e]) @ q))"
      | (b) n where "n \<le> length q" "maskQuery_loop q False ?b3
             = take 1024 (join_amp (map entry_text ((seen @ [e]) @ take n q))) @ ellipsis"
      by blast
    then show ?thesis
    proof cases
      case a
      with r show ?thesis by simp
    next
      case b
      with r have "maskQuery_loop (e # q) first b
             = take 1024 (join_amp (map entry_text (seen @ take (Suc n) (e # q)))) @ ellipsis"
        by simp
      moreover from b(1) have "Suc n \<le> length (e # q)" by simp
      ultimately show ?thesis by blast
    qed
  qed
qed

lemma loop_whole:
  assumes "b = join_amp (map entry_text seen)" and "first = (seen = [])"
    and "length (join_amp (map entry_text (seen @ q))) \<le> 1024"
  shows "maskQuery_loop q first b = join_amp (map entry_text (seen @ q))"
  using assms
proof (induction q arbitrary: seen first b)
  case Nil
  then show ?case by simp
next
  case (Cons e q)
  let ?b3 = "join_amp (map entry_text (seen @ [e]))"
  note st = loop_step [OF Cons.prems(1,2), of e q]
  have "length ?b3 \<le> length (join_amp (map entry_text (seen @ [e]) @ map entry_text q))"
    by (rule join_amp_prefix_length)
  with Cons.prems(3) have le: "length ?b3 \<le> 1024" by simp
  with st have r: "maskQuery_loop (e # q) first b = maskQuery_loop q False ?b3"
    by (simp add: Let_def)
  have f: "False = (seen @ [e] = [])" by simp
  from Cons.prems(3) have "length (join_amp (map entry_text ((seen @ [e]) @ q))) \<le> 1024"
    by simp
  from Cons.IH [OF refl f this] r show ?case by simp
qed

text \<open>
  C7. For every query, in whatever order its entries are visited: the text that maskQuery
  writes for a parameter with a value whose key equals one of password, pass, token,
  access_token, refresh_token, authorization, auth and secret up to case is the key and
  \<^verbatim>\<open>=****\<close>; the summary is the texts of the entries joined by \<^verbatim>\<open>&\<close>, whole when it
  has at most 1024 bytes and otherwise whole or cut after some entry at 1024 bytes; and
  the summary is the same for two queries that differ in the values of such parameters
  alone, so the value never appears in it.
\<close>

theorem maskQuery_masks_sensitive:
  "(sensitive_key k \<longrightarrow> entry_text (k, v # vs) = k @ ''=****'')
   \<and> maskQuery [] = ''<none>''
   \<and> (q \<noteq> [] \<and> length (join_amp (map entry_text q)) \<le> 1024 \<longrightarrow>
        maskQuery q = join_amp (map entry_text q))
   \<and> (q \<noteq> [] \<longrightarrow>
        maskQuery q = join_amp (map entry_text q)
        \<or> (\<exists>n \<le> length q.
              maskQuery q = take 1024 (join_amp (map entry_text (take n q))) @ ellipsis))
   \<and> (list_all2 masked_alike q q' \<longrightarrow> maskQuery q = maskQuery q')"
proof (intro conjI impI)
  assume "sensitive_key k"
  then show "entry_text (k, v # vs) = k @ ''=****''" by (rule entry_text_sensitive)
next
  show "maskQuery [] = ''<none>''" by (simp add: maskQuery_def)
next
  assume a: "q \<noteq> [] \<and> length (join_amp (map entry_text q)) \<le> 1024"
  have "maskQuery_loop q True [] = join_amp (map entry_text ([] @ q))"
    by (rule loop_whole) (use a in simp_all)
  with a show "maskQuery q = join_amp (map entry_text q)" by (simp add: maskQuery_def)
next
  assume a: "q \<noteq> []"
  have "maskQuery_loop q True [] = join_amp (map entry_text ([] @ q))
       \<or> (\<exists>n \<le> length q. maskQuery_loop q True []
             = take 1024 (join_amp (map entry_text ([] @ take n q))) @ ellipsis)"
    by (rule loop_shape) simp_all
  with a show "maskQuery q = join_amp (map entry_text q)
        \<or> (\<exists>n \<le> length q.
              maskQuery q = take 1024 (join_amp (map entry_text (take n q))) @ ellipsis)"
    by (simp add: maskQuery_def)
next
  assume a: "list_all2 masked_alike q q'"
  then have "length q = length q'" by (rule list_all2_lengthD)
  with maskQuery_loop_alike [OF a] show "maskQuery q = maskQuery q'"
    by (simp add: maskQuery_def)
qed

theorem maskQuery_masks_sensitive_witness:
  "maskQuery [(''email'', [''a@b'']), (''Token'', [''xyz''])] = ''email=a@b&Token=****''
   \<and> maskQuery [(''email'', [''a@b'']), (''Token'', [''another''])] = ''email=a@b&Token=****''
   \<and> entry_text (''Token'', [''xyz'']) = ''Token=****''"
proof -
  let ?q = "[(''email'', [''a@b'']), (''Token'', [''xyz''])]"
  let ?q' = "[(''email'', [''a@b'']), (''Token'', [''another''])]"
  have s: "sensitive_key ''Token''" by code_simp
  have e: "entry_text (''email'', [''a@b'']) = ''email=a@b''" by code_simp
  have a: "list_all2 masked_alike ?q ?q'" by code_simp
  note t = maskQuery_masks_sensitive [of "''Token''" "''xyz''" "[]" ?q ?q']
  from t s have et: "entry_text (''Token'', [''xyz'']) = ''Token=****''" by simp
  have j: "join_amp (map entry_text ?q) = ''email=a@b&Token=****''" by (simp add: e et)
  have "?q \<noteq> [] \<and> length (join_amp (map entry_text ?q)) \<le> 1024"
    by (simp only: j) simp
  with t have m: "maskQuery ?q = join_amp (map entry_text ?q)" by blast
  from t a have "maskQuery ?q = maskQuery ?q'" by blast
  with m j et show ?thesis by simp
qed

subsection \<open>maskSensitive and safeBodyPreview\<close>

lemma upper_ascii_dquote: "p \<noteq> dquote \<Longrightarrow> upper_ascii p \<noteq> dquote"
proof -
  assume p: "p \<noteq> dquote"
  let ?n = "of_char p :: nat"
  show ?thesis
  proof (cases "97 \<le> ?n \<and> ?n \<le> 122")
    case False
    with p show ?thesis by (auto simp add: upper_ascii_def Let_def)
  next
    case True
    have "?n - 32 < 256" using of_char_lt [of p] by arith
    then have "(?n - 32) mod 256 = ?n - 32" by (rule mod_less)
    then have oc: "(of_char (char_of (?n - 32)) :: nat) = ?n - 32" by simp
    have dq: "(of_char dquote :: nat) = 34" by (simp add: dquote_def)
    have "char_of (?n - 32) \<noteq> dquote"
    proof
      assume "char_of (?n - 32) = dquote"
      then have "(of_char (char_of (?n - 32)) :: nat) = of_char dquote" by (rule arg_cong)
      then have "?n - 32 = 34" by (simp only: oc dq)
      with True show False by arith
    qed
    with True show ?thesis by (simp add: upper_ascii_def Let_def)
  qed
qed

lemma fold_match_consumes:
  assumes "fold_match p s = Some r" and "p \<noteq> dquote"
  shows "\<exists>m. s = m @ r \<and> dquote \<notin> set m"
proof (cases s)
  case Nil
  with assms show ?thesis by simp
next
  case (Cons c cs)
  show ?thesis
  proof (cases "c = p \<or> c = upper_ascii p")
    case True
    with assms(1) Cons have r: "r = cs" by simp
    from True assms(2) upper_ascii_dquote [OF assms(2)] have "dquote \<notin> set [c]" by auto
    with r Cons show ?thesis by (intro exI [of _ "[c]"]) simp
  next
    case n1: False
    show ?thesis
    proof (cases "p = CHR ''k'' \<and> c = CHR 0xE2 \<and> take 2 cs = [CHR 0x84, CHR 0xAA]")
      case True
      with n1 assms(1) Cons have r: "r = drop 2 cs" by simp
      have "cs = take 2 cs @ drop 2 cs" by simp
      with True r have "cs = [CHR 0x84, CHR 0xAA] @ r" by simp
      with True Cons have "s = [CHR 0xE2, CHR 0x84, CHR 0xAA] @ r" by simp
      moreover have "dquote \<notin> set [CHR 0xE2, CHR 0x84, CHR 0xAA]" by (simp add: dquote_def)
      ultimately show ?thesis by blast
    next
      case n2: False
      show ?thesis
      proof (cases "p = CHR ''s'' \<and> c = CHR 0xC5 \<and> take 1 cs = [CHR 0xBF]")
        case True
        with n1 n2 assms(1) Cons have r: "r = drop 1 cs" by simp
        have "cs = take 1 cs @ drop 1 cs" by simp
        with True r have "cs = [CHR 0xBF] @ r" by simp
        with True Cons have "s = [CHR 0xC5, CHR 0xBF] @ r" by simp
        moreover have "dquote \<notin> set [CHR 0xC5, CHR 0xBF]" by (simp add: dquote_def)
        ultimately show ?thesis by blast
      next
        case n3: False
        have "fold_match p (c # cs) = None"
          by (simp only: fold_match.simps n1 n2 n3 if_False)
        from assms(1) [unfolded Cons this] show ?thesis by simp
      qed
    qed
  qed
qed

lemma match_lit_consumes:
  "match_lit w s = Some r \<Longrightarrow> dquote \<notin> set w \<Longrightarrow> \<exists>m. s = m @ r \<and> dquote \<notin> set m"
proof (induction w arbitrary: s)
  case Nil
  then show ?case by simp
next
  case (Cons p ps)
  from Cons.prems obtain r1 where f: "fold_match p s = Some r1" and m: "match_lit ps r1 = Some r"
    by (auto split: option.splits)
  from Cons.prems have "p \<noteq> dquote" "dquote \<notin> set ps" by auto
  from fold_match_consumes [OF f this(1)] obtain m1 where m1: "s = m1 @ r1" "dquote \<notin> set m1" by blast
  from Cons.IH [OF m \<open>dquote \<notin> set ps\<close>] obtain m2 where m2: "r1 = m2 @ r" "dquote \<notin> set m2" by blast
  from m1 m2 have "s = (m1 @ m2) @ r" "dquote \<notin> set (m1 @ m2)" by simp_all
  then show ?case by blast
qed

lemma first_dquote_unique:
  assumes "m @ dquote # r = k @ dquote # t" and "dquote \<notin> set m" and "dquote \<notin> set k"
  shows "m = k \<and> r = t"
proof -
  from assms(2) have "takeWhile (\<lambda>c. c \<noteq> dquote) (m @ dquote # r) = m"
    by (induction m) auto
  moreover from assms(3) have "takeWhile (\<lambda>c. c \<noteq> dquote) (k @ dquote # t) = k"
    by (induction k) auto
  ultimately have "m = k" using assms(1) by simp
  with assms(1) show ?thesis by simp
qed

lemma dropWhile_space_stop:
  "list_all is_space ws \<Longrightarrow> \<not> is_space c \<Longrightarrow> dropWhile is_space (ws @ c # r) = c # r"
  by (induction ws) auto

lemma dropWhile_value_stop:
  "dquote \<notin> set v \<Longrightarrow> dropWhile (\<lambda>c. c \<noteq> dquote) (v @ dquote # r) = dquote # r"
  by (induction v) auto

lemma field_tail_field:
  assumes "list_all is_space ws1" and "list_all is_space ws2" and "dquote \<notin> set v"
  shows "field_tail (dquote # ws1 @ CHR '':'' # ws2 @ dquote # v @ dquote # post) = Some post"
proof -
  have c: "\<not> is_space (CHR '':'')" by (simp add: is_space_def)
  have d: "\<not> is_space dquote" by (simp add: is_space_def dquote_def)
  show ?thesis
    by (simp add: field_tail_def expect_def
        dropWhile_space_stop [OF assms(1) c] dropWhile_space_stop [OF assms(2) d]
        dropWhile_value_stop [OF assms(3)])
qed

declare maskSensitive.simps [simp del]

lemma fold_ascii_no_char:
  assumes "lower_ascii c = c" and "c \<notin> set (fold_ascii k)"
  shows "c \<notin> set k"
proof
  assume "c \<in> set k"
  then have "lower_ascii c \<in> set (fold_ascii k)" by (simp add: fold_ascii_def)
  with assms show False by simp
qed

lemma sensitive_field_chars:
  assumes "sensitive_field k"
  shows "dquote \<notin> set k" and "CHR '':'' \<notin> set k"
proof -
  from assms have m: "fold_ascii k \<in> set sensitiveFields_words" by (simp add: sensitive_field_def)
  have "\<forall>w \<in> set sensitiveFields_words. dquote \<notin> set w \<and> CHR '':'' \<notin> set w"
    by (simp add: sensitiveFields_words_def dquote_def)
  with m have n: "dquote \<notin> set (fold_ascii k)" "CHR '':'' \<notin> set (fold_ascii k)" by blast+
  have "lower_ascii dquote = dquote" by (simp add: lower_ascii_def dquote_def)
  from fold_ascii_no_char [OF this n(1)] show "dquote \<notin> set k" .
  have "lower_ascii (CHR '':'') = CHR '':''" by (simp add: lower_ascii_def)
  from fold_ascii_no_char [OF this n(2)] show "CHR '':'' \<notin> set k" .
qed

lemma words_no_dquote: "w \<in> set sensitiveFields_words \<Longrightarrow> dquote \<notin> set w"
  by (auto simp add: sensitiveFields_words_def dquote_def)

lemma word_step:
  assumes "dquote \<notin> set w" and "dquote \<notin> set k"
    and "field_tail (dquote # t) = Some post"
  shows "Option.bind (match_lit w (k @ dquote # t)) field_tail = None
       \<or> Option.bind (match_lit w (k @ dquote # t)) field_tail = Some post"
proof (cases "Option.bind (match_lit w (k @ dquote # t)) field_tail")
  case None
  then show ?thesis by simp
next
  case (Some y)
  then obtain r where r: "match_lit w (k @ dquote # t) = Some r" and ft: "field_tail r = Some y"
    by (auto simp add: bind_eq_Some_conv)
  from match_lit_consumes [OF r assms(1)] obtain m where
    m: "k @ dquote # t = m @ r" "dquote \<notin> set m" by blast
  from ft obtain r' where r': "r = dquote # r'"
    by (cases r) (auto simp add: field_tail_def expect_def split: if_splits)
  from m(1) r' have "m @ dquote # r' = k @ dquote # t" by simp
  from first_dquote_unique [OF this m(2) assms(2)] have "r' = t" by simp
  with r' ft assms(3) have "y = post" by simp
  with Some show ?thesis by simp
qed

lemma alt_match_field:
  assumes "\<forall>w \<in> set ws. dquote \<notin> set w" and "fold_ascii k \<in> set ws"
    and "dquote \<notin> set k" and "field_tail (dquote # t) = Some post"
  shows "alt_match ws (k @ dquote # t) = Some post"
  using assms(1,2)
proof (induction ws)
  case Nil
  then show ?case by simp
next
  case (Cons w ws)
  from Cons.prems(1) have wd: "dquote \<notin> set w" by simp
  show ?case
  proof (cases "Option.bind (match_lit w (k @ dquote # t)) field_tail")
    case (Some y)
    with word_step [OF wd assms(3,4)] have "y = post" by simp
    with Some show ?thesis by simp
  next
    case None
    have "fold_ascii k \<noteq> w"
    proof
      assume "fold_ascii k = w"
      from match_lit_fold_ascii [OF this, of "dquote # t"] assms(4) None show False by simp
    qed
    with Cons.prems have "fold_ascii k \<in> set ws" "\<forall>w \<in> set ws. dquote \<notin> set w" by simp_all
    with Cons.IH None show ?thesis by simp
  qed
qed

lemma sensitiveFields_match_field:
  assumes "sensitive_field k" and "list_all is_space ws1" and "list_all is_space ws2"
    and "dquote \<notin> set v"
  shows "sensitiveFields_match (json_field k ws1 ws2 v @ post) = Some post"
proof -
  let ?t = "ws1 @ CHR '':'' # ws2 @ dquote # v @ dquote # post"
  have ft: "field_tail (dquote # ?t) = Some post"
    by (rule field_tail_field [OF assms(2,3,4)])
  have a: "\<forall>w \<in> set sensitiveFields_words. dquote \<notin> set w"
    using words_no_dquote by blast
  from assms(1) have b: "fold_ascii k \<in> set sensitiveFields_words" by (simp add: sensitive_field_def)
  from alt_match_field [OF a b sensitive_field_chars(1) [OF assms(1)] ft]
  show ?thesis
    by (simp add: sensitiveFields_match_def json_field_def expect_def)
qed

lemma takeWhile_stop: "c \<notin> set h \<Longrightarrow> takeWhile (\<lambda>x. x \<noteq> c) (h @ c # r) = h"
  by (induction h) auto

lemma space_no_colon: "list_all is_space ws \<Longrightarrow> CHR '':'' \<notin> set ws"
  by (induction ws) (auto simp add: is_space_def)

lemma mask_match_field:
  assumes "sensitive_field k" and "list_all is_space ws1"
  shows \<open>mask_match (json_field k ws1 ws2 v) = [dquote] @ k @ [dquote] @ ws1 @ '': "****"''\<close>
proof -
  let ?h = "[dquote] @ k @ [dquote] @ ws1"
  let ?r = "ws2 @ [dquote] @ v @ [dquote]"
  have j: "json_field k ws1 ws2 v = ?h @ CHR '':'' # ?r" by (simp add: json_field_def)
  have "CHR '':'' \<notin> set ?h"
    using sensitive_field_chars(2) [OF assms(1)] space_no_colon [OF assms(2)]
    by (simp add: dquote_def)
  then have "takeWhile (\<lambda>c. c \<noteq> CHR '':'') (?h @ CHR '':'' # ?r) = ?h"
    by (rule takeWhile_stop)
  then show ?thesis unfolding j mask_match_def by simp
qed

lemma maskSensitive_field:
  assumes "sensitive_field k" and "list_all is_space ws1" and "list_all is_space ws2"
    and "dquote \<notin> set v"
  shows \<open>maskSensitive (json_field k ws1 ws2 v @ post)
           = [dquote] @ k @ [dquote] @ ws1 @ '': "****"'' @ maskSensitive post\<close>
proof -
  let ?f = "json_field k ws1 ws2 v"
  obtain c cs where c: "?f @ post = c # cs" by (simp add: json_field_def)
  have l: "length (c # cs) - length post = length ?f"
    using arg_cong [OF c, of length] by simp
  have t: "take (length ?f) (c # cs) = ?f" using c [symmetric] by simp
  from sensitiveFields_match_field [OF assms, of post] c
  have m: "sensitiveFields_match (c # cs) = Some post" by simp
  have "maskSensitive (c # cs)
          = mask_match (take (length (c # cs) - length post) (c # cs)) @ maskSensitive post"
    by (subst maskSensitive.simps) (simp only: m option.case)
  then have "maskSensitive (c # cs) = mask_match ?f @ maskSensitive post"
    by (simp only: l t)
  with c mask_match_field [OF assms(1,2), of ws2 v] show ?thesis by simp
qed

lemma maskSensitive_copy:
  "dquote \<notin> set pre \<Longrightarrow> maskSensitive (pre @ s) = pre @ maskSensitive s"
proof (induction pre)
  case Nil
  show ?case by simp
next
  case (Cons c pre)
  then have "sensitiveFields_match (c # pre @ s) = None"
    by (auto simp add: sensitiveFields_match_def expect_def)
  with Cons show ?case by (simp add: maskSensitive.simps)
qed

lemma maskSensitive_no_match:
  "sensitiveFields_match (c # s) = None \<Longrightarrow> maskSensitive (c # s) = c # maskSensitive s"
  by (simp add: maskSensitive.simps)

lemma maskSensitive_other:
  "c \<noteq> dquote \<Longrightarrow> maskSensitive (c # s) = c # maskSensitive s"
  by (rule maskSensitive_no_match) (auto simp add: sensitiveFields_match_def expect_def)

lemma ToLower_ascii: "is_ascii ct \<Longrightarrow> ToLower ul ct = map lower_ascii ct"
  by (simp add: ToLower_def)

text \<open>
  C1, as amended. For a body logged under a content type whose lower-casing contains
  \<^verbatim>\<open>application/json\<close>, in which a member named password, token, access_token,
  refresh_token or authorization (up to case) with a string value free of double quotes
  follows a prefix that the expression processes on its own (no match begins in the
  prefix and runs past its end): the preview shows the masked prefix, then the name
  followed by \<^verbatim>\<open>: "****"\<close>, and it is the same for any two such values.
\<close>

theorem safeBodyPreview_masks_sensitive_fields:
  assumes "Contains (ToLower ul ct) ''application/json''"
    and "sensitive_field k" and "list_all is_space ws1" and "list_all is_space ws2"
    and "\<And>s. maskSensitive (pre @ s) = pre' @ maskSensitive s"
    and "dquote \<notin> set v" and "dquote \<notin> set v'"
  shows \<open>safeBodyPreview ul (pre @ json_field k ws1 ws2 v @ post) ct
           = ReplaceAll_newline
               (pre' @ [dquote] @ k @ [dquote] @ ws1 @ '': "****"'' @ maskSensitive post)
         \<and> safeBodyPreview ul (pre @ json_field k ws1 ws2 v @ post) ct
           = safeBodyPreview ul (pre @ json_field k ws1 ws2 v' @ post) ct\<close>
proof -
  have m: \<open>maskSensitive (pre @ json_field k ws1 ws2 u @ post)
             = pre' @ [dquote] @ k @ [dquote] @ ws1 @ '': "****"'' @ maskSensitive post\<close>
    if "dquote \<notin> set u" for u
    using assms(5) [of "json_field k ws1 ws2 u @ post"]
      maskSensitive_field [OF assms(2,3,4) that, of post]
    by simp
  have ne: "length (pre @ json_field k ws1 ws2 u @ post) \<noteq> 0" for u
    by (simp add: json_field_def)
  have p: \<open>safeBodyPreview ul (pre @ json_field k ws1 ws2 u @ post) ct
             = ReplaceAll_newline
                 (pre' @ [dquote] @ k @ [dquote] @ ws1 @ '': "****"'' @ maskSensitive post)\<close>
    if "dquote \<notin> set u" for u
    unfolding safeBodyPreview_def Let_def
    by (simp only: ne assms(1) if_True if_False m [OF that])
  from p [OF assms(6)] p [OF assms(7)] show ?thesis by simp
qed

text \<open>
  Prefixes that the expression processes on their own: a text without a double quote, a
  masked member, two such prefixes one after the other, and the beginning of the login
  body of the test script.
\<close>

lemma closed_append:
  assumes "\<And>s. maskSensitive (p @ s) = p' @ maskSensitive s"
    and "\<And>s. maskSensitive (r @ s) = r' @ maskSensitive s"
  shows "maskSensitive ((p @ r) @ s) = (p' @ r') @ maskSensitive s"
  using assms(1) [of "r @ s"] assms(2) [of s] by simp

lemma upper_ascii_first:
  "upper_ascii (CHR ''p'') = CHR ''P''" "upper_ascii (CHR ''t'') = CHR ''T''"
  "upper_ascii (CHR ''a'') = CHR ''A''" "upper_ascii (CHR ''r'') = CHR ''R''"
  "upper_ascii (CHR ''o'') = CHR ''O''" "upper_ascii (CHR ''c'') = CHR ''C''"
  "upper_ascii (CHR ''u'') = CHR ''U''" "upper_ascii (CHR ''e'') = CHR ''E''"
  by code_simp+

lemma login_prefix_closed:
  \<open>maskSensitive (''{"email":"test@example.com",'' @ s)
     = ''{"email":"test@example.com",'' @ maskSensitive s\<close>
proof -
  have q1: \<open>sensitiveFields_match (''"email":"test@example.com",'' @ s) = None\<close>
    by (simp add: sensitiveFields_match_def expect_def dquote_def sensitiveFields_words_def
        upper_ascii_first)
  have q2: \<open>sensitiveFields_match (''":"test@example.com",'' @ s) = None\<close>
    by (simp add: sensitiveFields_match_def expect_def dquote_def sensitiveFields_words_def
        upper_ascii_first)
  have q3: \<open>sensitiveFields_match (''"test@example.com",'' @ s) = None\<close>
    by (simp add: sensitiveFields_match_def expect_def dquote_def sensitiveFields_words_def
        upper_ascii_first)
  have q4: \<open>sensitiveFields_match (''",'' @ s) = None\<close>
    by (simp add: sensitiveFields_match_def expect_def dquote_def sensitiveFields_words_def
        upper_ascii_first)
  show ?thesis
    by (simp add: maskSensitive_other maskSensitive_no_match dquote_def
        q1 [simplified] q2 [simplified] q3 [simplified] q4 [simplified])
qed

theorem safeBodyPreview_masks_sensitive_fields_witness:
  \<open>safeBodyPreview (\<lambda>s. s) ''{"email":"test@example.com","password":"test123"}''
       ''application/json''
     = ''{"email":"test@example.com","password": "****"}''
   \<and> safeBodyPreview (\<lambda>s. s) ''{"email":"test@example.com","password":"test123"}''
       ''application/json''
     = safeBodyPreview (\<lambda>s. s) ''{"email":"test@example.com","password":"hunter2"}''
       ''application/json''\<close>
proof -
  let ?ct = "''application/json''"
  let ?pre = \<open>''{"email":"test@example.com",''\<close>
  have h: "Contains (ToLower (\<lambda>s. s) ?ct) ''application/json''"
    "sensitive_field ''password''" "list_all is_space []"
    "dquote \<notin> set ''test123''" "dquote \<notin> set ''hunter2''"
    by code_simp+
  have j: \<open>?pre @ json_field ''password'' [] [] ''test123'' @ ''}''
             = ''{"email":"test@example.com","password":"test123"}''\<close>
    \<open>?pre @ json_field ''password'' [] [] ''hunter2'' @ ''}''
             = ''{"email":"test@example.com","password":"hunter2"}''\<close>
    by (simp_all add: json_field_def dquote_def)
  have e: "maskSensitive ''}'' = ''}''" by code_simp
  have r: \<open>ReplaceAll_newline (?pre @ [dquote] @ ''password'' @ [dquote] @ [] @ '': "****"'' @ ''}'')
            = ''{"email":"test@example.com","password": "****"}''\<close>
    by (simp add: ReplaceAll_newline_def dquote_def newline_def)
  from safeBodyPreview_masks_sensitive_fields
    [of "\<lambda>s. s" ?ct "''password''" "[]" "[]" ?pre ?pre "''test123''" "''hunter2''" "''}''",
     OF h(1) h(2) h(3) h(3) login_prefix_closed h(4) h(5)]
  show ?thesis unfolding j e r .
qed

text \<open>
  The claim as stated fails: \<^verbatim>\<open>obfuscation_seed\<close> is none of the names that
  \<^verbatim>\<open>sensitiveFields\<close> masks, so a JSON body that carries the secret under that name is
  logged as it is and the preview depends on the secret. The content type is ASCII, so the
  mapping of other strings plays no part.
\<close>

theorem safeBodyPreview_logs_obfuscation_seed:
  \<open>safeBodyPreview (\<lambda>s. s) ''{"obfuscation_seed":"s3cr3t"}'' ''application/json''
     = ''{"obfuscation_seed":"s3cr3t"}''
   \<and> safeBodyPreview (\<lambda>s. s) ''{"obfuscation_seed":"0ther1"}'' ''application/json''
     \<noteq> safeBodyPreview (\<lambda>s. s) ''{"obfuscation_seed":"s3cr3t"}'' ''application/json''\<close>
  by code_simp

lemma safeBodyPreview_ascii_ct:
  "is_ascii ct \<Longrightarrow> safeBodyPreview ul b ct = safeBodyPreview ul' b ct"
  by (simp add: safeBodyPreview_def ToLower_def)

subsection \<open>The key file codec\<close>

text \<open>
  C5. Round trip of the key file: for every stored file and every version that the decoder
  supports, decoding the key file encoded from the stored file succeeds and yields the
  file id, the filename and the original size of the stored file.
\<close>

theorem KeyFile_roundtrip:
  assumes "v \<in> set vs"
  shows "\<exists>k. KeyFile_decode vs (KeyFile_encode v f) = Inr k
           \<and> version k = v
           \<and> file_id k = StoredFile.FileID f
           \<and> filename k = StoredFile.OriginalFilename f
           \<and> original_size k = OriginalSize f"
  using assms
  by (simp add: KeyFile_decode_def KeyFile_encode_def member_string_def member_number_def)

theorem KeyFile_roundtrip_witness:
  "KeyFile_decode [1, 2]
     (KeyFile_encode 2
        \<lparr>StoredFile.ID = [], FileID = ''654a1b2c00ff'', UserID = [],
         OriginalFilename = ''test_file.bin'', OriginalSize = 31457280,
         ProcessedSize = 31457280, Chunks = None, ObfuscationSeed = ''seed'',
         CreatedAt = 0, Status = ''active''\<rparr>)
   = Inr \<lparr>version = 2, file_id = ''654a1b2c00ff'', filename = ''test_file.bin'',
          original_size = 31457280, obfuscation_secret = ''seed''\<rparr>"
proof -
  let ?f = "\<lparr>StoredFile.ID = [], FileID = ''654a1b2c00ff'', UserID = [],
         OriginalFilename = ''test_file.bin'', OriginalSize = 31457280,
         ProcessedSize = 31457280, Chunks = None, ObfuscationSeed = ''seed'',
         CreatedAt = 0, Status = ''active''\<rparr>"
  have v: "(2::int) \<in> set [1, 2]" by simp
  have s: "KeyFile_encode 2 ?f = JObject
     [(''version'', JNumber 2), (''file_id'', JString ''654a1b2c00ff''),
      (''original_filename'', JString ''test_file.bin''),
      (''original_size'', JNumber 31457280),
      (''obfuscation_secret'', JString ''seed'')]"
    by (simp add: KeyFile_encode_def)
  from KeyFile_roundtrip [OF v, of ?f] obtain k where
    k: "KeyFile_decode [1, 2] (KeyFile_encode 2 ?f) = Inr k" by blast
  then show ?thesis
    unfolding s by (simp add: KeyFile_decode_def member_number_def member_string_def)
qed

lemma KeyFile_decode_unsupported:
  "v \<notin> set vs \<Longrightarrow> KeyFile_decode vs (KeyFile_encode v f) = Inl UnsupportedKeyFileVersion"
  by (simp add: KeyFile_decode_def KeyFile_encode_def member_string_def member_number_def)


subsection \<open>The reconstruction engine\<close>

lemma fetch_phase_corrupted:
  assumes "\<forall>p \<in> set pre. \<exists>b. rd p = Inr b" and "rd c = Inr b" and "ck b \<noteq> Checksum c"
  shows "\<exists>i. fetch_phase rd ck (pre @ c # post) = Inl (ChunkCorrupted i)"
  using assms(1)
proof (induction pre)
  case Nil
  from assms(2,3) show ?case by simp
next
  case (Cons p pre)
  then obtain bp where bp: "rd p = Inr bp" by auto
  from Cons obtain i where i: "fetch_phase rd ck (pre @ c # post) = Inl (ChunkCorrupted i)"
    by auto
  show ?case
  proof (cases "ck bp \<noteq> Checksum p")
    case True
    with bp show ?thesis by simp
  next
    case False
    with bp i show ?thesis by simp
  qed
qed

text \<open>
  C6. A run of the reconstruction in which a chunk is fetched whose checksum differs from
  the one recorded in its StoredChunk (the chunks before it were read from their accounts)
  ends the download session in status failed with the error ChunkCorrupted, naming a
  chunk; no artifact is produced and the session's path to the artifact is not set.
\<close>

theorem corrupted_chunk_fails_session:
  assumes "\<forall>p \<in> set pre. \<exists>b. rd p = Inr b" and "rd c = Inr b" and "ck b \<noteq> Checksum c"
  shows "\<exists>i. reconstruct rd ck unmask key out now (pre @ c # post) s
           = (s\<lparr>Status := ''failed'', ErrorMessage := error_name (ChunkCorrupted i)\<rparr>, None)"
proof -
  from fetch_phase_corrupted [of pre rd c b ck post] assms obtain i where
    "fetch_phase rd ck (pre @ c # post) = Inl (ChunkCorrupted i)" by blast
  then have "reconstruct rd ck unmask key out now (pre @ c # post) s
           = (s\<lparr>Status := ''failed'', ErrorMessage := error_name (ChunkCorrupted i)\<rparr>, None)"
    by (simp add: reconstruct_def fail_session_def)
  then show ?thesis by blast
qed

theorem corrupted_chunk_fails_session_witness:
  "\<exists>i. reconstruct (\<lambda>c. Inr (DriveFileID c)) (\<lambda>b. b) (\<lambda>k b. b)
          \<lparr>version = 1, file_id = ''654a1b2c00ff'', filename = ''a.bin'', original_size = 4,
            obfuscation_secret = ''seed''\<rparr> ''out/a.bin'' 7
          ([\<lparr>ChunkID = 0, DriveAccountID = [], DriveID = ''d0'', DriveFileID = ''ab'',
             Filename = ''c0'', Size = 2, Checksum = ''ab'', StartOffset = 0, EndOffset = 2\<rparr>]
           @ \<lparr>ChunkID = 1, DriveAccountID = [], DriveID = ''d1'', DriveFileID = ''cX'',
               Filename = ''c1'', Size = 2, Checksum = ''cd'', StartOffset = 2, EndOffset = 4\<rparr>
           # [])
          \<lparr>ID = [], UserID = [], FileID = ''654a1b2c00ff'', OriginalFilename = ''a.bin'',
            Status = ''downloading'', Progress = 0, ErrorMessage = [], TempFilePath = ''tmp'',
            ReconstructedPath = [], CreatedAt = 0, CompletedAt = None, ExpiresAt = 100\<rparr>
     = (\<lparr>ID = [], UserID = [], FileID = ''654a1b2c00ff'', OriginalFilename = ''a.bin'',
          Status = ''failed'', Progress = 0,
          ErrorMessage = error_name (ChunkCorrupted i), TempFilePath = ''tmp'',
          ReconstructedPath = [], CreatedAt = 0, CompletedAt = None, ExpiresAt = 100\<rparr>, None)"
proof -
  let ?rd = "\<lambda>c :: StoredChunk. (Inr (DriveFileID c) :: string + bytes)"
  let ?ck = "\<lambda>b :: bytes. b"
  let ?c0 = "\<lparr>ChunkID = 0, DriveAccountID = [], DriveID = ''d0'', DriveFileID = ''ab'',
             Filename = ''c0'', Size = 2, Checksum = ''ab'', StartOffset = 0, EndOffset = 2\<rparr>"
  let ?c1 = "\<lparr>ChunkID = 1, DriveAccountID = [], DriveID = ''d1'', DriveFileID = ''cX'',
               Filename = ''c1'', Size = 2, Checksum = ''cd'', StartOffset = 2, EndOffset = 4\<rparr>"
  have a: "\<forall>p \<in> set [?c0]. \<exists>b. ?rd p = Inr b" by simp
  have b: "?rd ?c1 = Inr ''cX''" by simp
  have c: "?ck ''cX'' \<noteq> Checksum ?c1" by simp
  let ?key = "\<lparr>version = 1, file_id = ''654a1b2c00ff'', filename = ''a.bin'', original_size = 4,
            obfuscation_secret = ''seed''\<rparr>"
  let ?s = "\<lparr>ID = [], UserID = [], FileID = ''654a1b2c00ff'', OriginalFilename = ''a.bin'',
            Status = ''downloading'', Progress = 0, ErrorMessage = [], TempFilePath = ''tmp'',
            ReconstructedPath = [], CreatedAt = 0, CompletedAt = None, ExpiresAt = 100\<rparr>"
  from corrupted_chunk_fails_session
    [of "[?c0]" ?rd ?c1 "''cX''" ?ck "\<lambda>k b. b" ?key "''out/a.bin''" 7 "[]" ?s, OF a b c]
  obtain i where "reconstruct ?rd ?ck (\<lambda>k b. b) ?key ''out/a.bin'' 7 ([?c0] @ ?c1 # []) ?s
     = (?s\<lparr>Status := ''failed'', ErrorMessage := error_name (ChunkCorrupted i)\<rparr>, None)"
    by blast
  then show ?thesis by (intro exI [of _ i]) simp
qed

subsection \<open>The chunk allocation planner\<close>

lemma chunk_count_upper: "0 < t \<Longrightarrow> sz \<le> chunk_count sz t * t"
proof -
  assume t: "0 < t"
  let ?q = "sz + t - 1"
  have "?q < t + ?q div t * t" using t by (rule dividend_less_div_times)
  then show ?thesis using t unfolding chunk_count_def by arith
qed

lemma chunk_count_lower: "0 < t \<Longrightarrow> i < chunk_count sz t \<Longrightarrow> i * t < sz"
proof -
  assume t: "0 < t" and i: "i < chunk_count sz t"
  let ?q = "sz + t - 1"
  from i have "Suc i \<le> ?q div t" by (simp add: chunk_count_def)
  then have "Suc i * t \<le> ?q div t * t" by (rule mult_le_mono1)
  also have "\<dots> \<le> ?q" by simp
  finally have "i * t + t \<le> sz + t - 1" by simp
  with t show ?thesis by arith
qed

lemma chain_ranges:
  assumes "0 < t" and "k \<le> n" and "sz \<le> n * t" and "\<forall>i<n. i * t < sz"
  shows "chain (min (k * t) sz) (map (\<lambda>i. (i * t, min ((i + 1) * t) sz)) [k..<n]) sz"
  using assms(2)
proof (induction rule: inc_induct)
  case base
  from assms(3) show ?case by (simp add: min_def)
next
  case (step m)
  from step.hyps(2) assms(4) have lt: "m * t < sz" by simp
  from step.hyps(2) have u: "[m..<n] = m # [Suc m..<n]" by (simp add: upt_conv_Cons)
  from lt assms(1) have "m * t < min ((m + 1) * t) sz" by simp
  with lt step.IH show ?case by (simp add: u min_def)
qed

lemma chain_plan_ranges: "0 < t \<Longrightarrow> chain 0 (plan_ranges sz t) sz"
  using chain_ranges [of t 0 "chunk_count sz t" sz] chunk_count_upper [of t sz]
    chunk_count_lower [of t _ sz]
  by (simp add: plan_ranges_def)

lemma allocate_contiguous:
  "allocate rem i rs = Inr p \<Longrightarrow> chain off rs e \<Longrightarrow> contiguous off p e"
proof (induction rs arbitrary: rem i p off)
  case Nil
  then show ?case by simp
next
  case (Cons r rs)
  obtain s e' where r: "r = (s, e')" by (cases r)
  from Cons.prems(1) r obtain a p' where
    a: "pick rem (e' - s) = Some a"
    and p': "allocate (debit rem a (e' - s)) (Suc i) rs = Inr p'"
    and p: "p = \<lparr>chunk_index = i, size' = e' - s, start_offset = s, end_offset = e',
                 target_account = a\<rparr> # p'"
    by (auto split: option.splits sum.splits)
  from Cons.prems(2) r have c: "s = off" "s < e'" "chain e' rs e" by simp_all
  from Cons.IH [OF p' c(3)] c p show ?case by simp
qed

lemma contiguous_sum: "contiguous off p e \<Longrightarrow> off \<le> e \<and> sum_list (map size' p) = e - off"
proof (induction p arbitrary: off)
  case Nil
  then show ?case by simp
next
  case (Cons c cs)
  then have a: "start_offset c = off" "start_offset c < end_offset c"
    "size' c = end_offset c - start_offset c" "contiguous (end_offset c) cs e" by simp_all
  from Cons.IH [OF a(4)] a show ?case by simp
qed

lemma heaviest_mem: "heaviest b xs \<in> set (b # xs)"
  by (induction xs arbitrary: b) auto

lemma pick_Some:
  assumes "pick rem need = Some a"
  shows "\<exists>f. (a, f) \<in> set rem \<and> need \<le> f"
proof -
  let ?el = "filter (\<lambda>x. need \<le> snd x) rem"
  from assms obtain x xs where el: "?el = x # xs" and a: "a = fst (heaviest x xs)"
    by (auto simp add: pick_def split: list.splits)
  from heaviest_mem [of x xs] el have "heaviest x xs \<in> set ?el" by simp
  then have "heaviest x xs \<in> set rem" "need \<le> snd (heaviest x xs)" by simp_all
  with a show ?thesis by (cases "heaviest x xs") auto
qed

lemma debit_keys: "map fst (debit rem a n) = map fst rem"
  by (induction rem) (simp_all add: debit_def)

lemma debit_same:
  "(a, f) \<in> set rem \<Longrightarrow> (a, f - n) \<in> set (debit rem a n)"
  by (force simp add: debit_def)

lemma debit_other:
  "(b, f) \<in> set rem \<Longrightarrow> b \<noteq> a \<Longrightarrow> (b, f) \<in> set (debit rem a n)"
  by (force simp add: debit_def)

lemma allocate_load:
  "allocate rem i rs = Inr p \<Longrightarrow> distinct (map fst rem) \<Longrightarrow> (b, f) \<in> set rem
     \<Longrightarrow> load p b \<le> f"
proof (induction rs arbitrary: rem i p f)
  case Nil
  then show ?case by (simp add: load_def)
next
  case (Cons r rs)
  obtain s e' where r: "r = (s, e')" by (cases r)
  from Cons.prems(1) r obtain a p' where
    a: "pick rem (e' - s) = Some a"
    and p': "allocate (debit rem a (e' - s)) (Suc i) rs = Inr p'"
    and p: "p = \<lparr>chunk_index = i, size' = e' - s, start_offset = s, end_offset = e',
                 target_account = a\<rparr> # p'"
    by (auto split: option.splits sum.splits)
  from pick_Some [OF a] obtain fa where fa: "(a, fa) \<in> set rem" "e' - s \<le> fa" by blast
  from Cons.prems(2) have d: "distinct (map fst (debit rem a (e' - s)))" by (simp add: debit_keys)
  show ?case
  proof (cases "b = a")
    case True
    with Cons.prems(2,3) fa(1) have "f = fa" by (metis eq_key_imp_eq_value)
    with True fa debit_same [OF fa(1), of "e' - s"]
    have "(b, f - (e' - s)) \<in> set (debit rem a (e' - s))" by simp
    from Cons.IH [OF p' d this] have "load p' b \<le> f - (e' - s)" .
    with True p fa \<open>f = fa\<close> show ?thesis by (simp add: load_def)
  next
    case False
    from debit_other [OF Cons.prems(3) False] have "(b, f) \<in> set (debit rem a (e' - s))" .
    from Cons.IH [OF p' d this] have "load p' b \<le> f" .
    with False p show ?thesis by (simp add: load_def)
  qed
qed

lemma allocate_targets:
  "allocate rem i rs = Inr p \<Longrightarrow> c \<in> set p \<Longrightarrow> target_account c \<in> fst ` set rem"
proof (induction rs arbitrary: rem i p)
  case Nil
  then show ?case by simp
next
  case (Cons r rs)
  obtain s e' where r: "r = (s, e')" by (cases r)
  from Cons.prems(1) r obtain a p' where
    a: "pick rem (e' - s) = Some a"
    and p': "allocate (debit rem a (e' - s)) (Suc i) rs = Inr p'"
    and p: "p = \<lparr>chunk_index = i, size' = e' - s, start_offset = s, end_offset = e',
                 target_account = a\<rparr> # p'"
    by (auto split: option.splits sum.splits)
  from pick_Some [OF a] have am: "a \<in> fst ` set rem" by force
  show ?case
  proof (cases "c \<in> set p'")
    case True
    from Cons.IH [OF p' True] have "target_account c \<in> fst ` set (debit rem a (e' - s))" .
    also have "fst ` set (debit rem a (e' - s)) = fst ` set rem"
      using debit_keys [of rem a "e' - s"] by (metis set_map)
    finally show ?thesis .
  next
    case False
    with Cons.prems(2) p am show ?thesis by simp
  qed
qed

text \<open>
  C4. Every plan that the planner computes, for a configuration with a positive minimum
  chunk size and accounts of distinct ids: the chunks partition \<open>[0, size)\<close>, contiguous
  and non-empty, their sizes sum to the file size, every chunk goes to one of the linked
  accounts, and no account receives more bytes than the free capacity it reported.
\<close>

theorem plan_partitions:
  assumes "plan cfg sz strat accts = Inr p" and "0 < min_chunk_size cfg"
    and "distinct (map fst accts)"
  shows "contiguous 0 p sz
       \<and> sum_list (map size' p) = sz
       \<and> (\<forall>c \<in> set p. target_account c \<in> fst ` set accts)
       \<and> (\<forall>(a, f) \<in> set accts. load p a \<le> f)"
proof -
  let ?t = "target_chunk_size cfg"
  from assms(2) have t: "0 < ?t" by (simp add: target_chunk_size_def)
  from assms(1) have al: "allocate accts 0 (plan_ranges sz ?t) = Inr p"
    by (cases strat) (simp add: plan_def split: if_splits)
  from allocate_contiguous [OF al chain_plan_ranges [OF t]] have c: "contiguous 0 p sz" .
  from contiguous_sum [OF c] have s: "sum_list (map size' p) = sz" by simp
  from allocate_targets [OF al] have tg: "\<forall>c \<in> set p. target_account c \<in> fst ` set accts"
    by blast
  from allocate_load [OF al assms(3)] have "\<forall>(a, f) \<in> set accts. load p a \<le> f" by blast
  with c s tg show ?thesis by blast
qed

theorem plan_partitions_witness:
  "plan \<lparr>min_chunk_size = 1, max_chunk_size = 100, preferred_chunk_size = 10,
         safety_margin = 0\<rparr> 25 Balanced [(''A'', 1000), (''B'', 1000)]
     = Inr [\<lparr>chunk_index = 0, size' = 10, start_offset = 0, end_offset = 10,
              target_account = ''A''\<rparr>,
            \<lparr>chunk_index = 1, size' = 10, start_offset = 10, end_offset = 20,
              target_account = ''B''\<rparr>,
            \<lparr>chunk_index = 2, size' = 5, start_offset = 20, end_offset = 25,
              target_account = ''A''\<rparr>]
   \<and> contiguous 0
        [\<lparr>chunk_index = 0, size' = 10, start_offset = 0, end_offset = 10,
              target_account = ''A''\<rparr>,
         \<lparr>chunk_index = 1, size' = 10, start_offset = 10, end_offset = 20,
              target_account = ''B''\<rparr>,
         \<lparr>chunk_index = 2, size' = 5, start_offset = 20, end_offset = 25,
              target_account = ''A''\<rparr>] 25"
proof -
  let ?cfg = "\<lparr>min_chunk_size = 1, max_chunk_size = 100, preferred_chunk_size = 10,
         safety_margin = 0\<rparr>"
  let ?accts = "[(''A'', 1000 :: nat), (''B'', 1000)]"
  let ?p = "[\<lparr>chunk_index = 0, size' = 10, start_offset = 0, end_offset = 10,
              target_account = ''A''\<rparr>,
            \<lparr>chunk_index = 1, size' = 10, start_offset = 10, end_offset = 20,
              target_account = ''B''\<rparr>,
            \<lparr>chunk_index = 2, size' = 5, start_offset = 20, end_offset = 25,
              target_account = ''A''\<rparr>]"
  have pl: "plan ?cfg 25 Balanced ?accts = Inr ?p" by code_simp
  have m: "0 < min_chunk_size ?cfg" by simp
  have d: "distinct (map fst ?accts)" by simp
  from plan_partitions [OF pl m d] pl show ?thesis by blast
qed

end
